theory Spec2Isabelle
  imports Complex_Main "HOL-Library.Stream" "HOL-Library.Multiset"
begin

section \<open>Genetic feature selection (gscv.py): data model\<close>

text \<open>
  A chromosome is a Python list of ints holding the bits 0 and 1; with hyperparameters
  configured it is the hyperparameter segments followed by one bit per feature.
\<close>

type_synonym genome = "int list"

datatype error = ValueError | TypeError | IndexError | ZeroDivisionError | OverflowError

text \<open>
  A fitness is the 3-tuple returned by \<open>_evalFunction\<close>: mean score, number of selected
  features, standard deviation of the scores. Scores are Python floats, modelled as reals.
\<close>

type_synonym fitness = "real \<times> int \<times> real"

text \<open>
  A Python float in the arithmetic of line 152: a finite value, an infinity or NaN. The
  finite values are reals: the rounding of a finite result is not modelled, its overflow
  to an infinity is. A Python number of a range is an int or a float.
\<close>

datatype pyfloat = Finite real | PosInf | NegInf | NaN

datatype pynum = PyInt int | PyFloat pyfloat

text \<open>A hyperparameter value set on the estimator: a float, or an int after rounding.\<close>

datatype pval = PFloat pyfloat | PInt int

text \<open>
  The \<open>hparams\<close> dict: \<open>names\<close>, \<open>bitwidth\<close> (a count, hence a natural number) and
  \<open>range\<close>, one \<open>[min, max]\<close> pair per name.
\<close>

record hparams =
  names :: "string list"
  bitwidth :: nat
  range_hp :: "(pynum \<times> pynum) list"

text \<open>
  What \<open>_evalFunction\<close> reads and writes besides its result: the estimator object it is
  given (its attributes set by \<open>setattr\<close>), the \<open>scores_cache\<close> dict, and the number of
  calls made to \<open>cross_val_score\<close>.
\<close>

record eval_state =
  estimator :: "string \<rightharpoonup> pval"
  scores_cache :: "genome \<rightharpoonup> (real \<times> real)"
  cv_calls :: nat

section \<open>Decoding a hyperparameter segment\<close>

text \<open>
  \<open>int(''.join(str(b) for b in bin_str), 2)\<close>: the bits read as an unsigned binary number,
  most significant first. \<open>int\<close> raises ValueError on the empty string and on a digit
  other than 0 and 1.
\<close>

definition is_bits :: "genome \<Rightarrow> bool" where
  "is_bits bs = list_all (\<lambda>b. b = 0 \<or> b = 1) bs"

definition int_of_bin_str :: "genome \<Rightarrow> error + int" where
  "int_of_bin_str bin_str =
     (if bin_str = [] \<or> \<not> is_bits bin_str then Inl ValueError
      else Inr (foldl (\<lambda>acc b. 2 * acc + b) 0 bin_str))"

subsection \<open>Python arithmetic on ints and floats\<close>

text \<open>
  A magnitude from \<open>2^1024 - 2^970\<close> on is beyond the doubles: the result of a float
  operation with such an exact value is an infinity, and the conversion of such an int to
  a float raises OverflowError.
\<close>

definition float_limit :: real where
  "float_limit = 2 ^ 1024 - 2 ^ 970"

definition fl :: "real \<Rightarrow> pyfloat" where
  "fl x = (if float_limit \<le> x then PosInf else if x \<le> - float_limit then NegInf else Finite x)"

definition float_of_int :: "int \<Rightarrow> error + pyfloat" where
  "float_of_int i =
     (if float_limit \<le> \<bar>of_int i\<bar> then Inl OverflowError else Inr (Finite (of_int i)))"

definition to_float :: "pynum \<Rightarrow> error + pyfloat" where
  "to_float x = (case x of PyInt i \<Rightarrow> float_of_int i | PyFloat f \<Rightarrow> Inr f)"

fun fneg :: "pyfloat \<Rightarrow> pyfloat" where
  "fneg (Finite x) = Finite (- x)"
| "fneg PosInf = NegInf"
| "fneg NegInf = PosInf"
| "fneg NaN = NaN"

fun fadd :: "pyfloat \<Rightarrow> pyfloat \<Rightarrow> pyfloat" where
  "fadd (Finite x) (Finite y) = fl (x + y)"
| "fadd NaN y = NaN"
| "fadd x NaN = NaN"
| "fadd PosInf NegInf = NaN"
| "fadd NegInf PosInf = NaN"
| "fadd PosInf y = PosInf"
| "fadd NegInf y = NegInf"
| "fadd x PosInf = PosInf"
| "fadd x NegInf = NegInf"

text \<open>The sign of a product with an infinity; the product with zero is NaN.\<close>

definition inf_times :: "bool \<Rightarrow> real \<Rightarrow> pyfloat" where
  "inf_times positive y =
     (if y = 0 then NaN else if (0 < y) = positive then PosInf else NegInf)"

fun fmul :: "pyfloat \<Rightarrow> pyfloat \<Rightarrow> pyfloat" where
  "fmul (Finite x) (Finite y) = fl (x * y)"
| "fmul NaN y = NaN"
| "fmul x NaN = NaN"
| "fmul PosInf (Finite y) = inf_times True y"
| "fmul NegInf (Finite y) = inf_times False y"
| "fmul (Finite x) PosInf = inf_times True x"
| "fmul (Finite x) NegInf = inf_times False x"
| "fmul PosInf PosInf = PosInf"
| "fmul NegInf NegInf = PosInf"
| "fmul PosInf NegInf = NegInf"
| "fmul NegInf PosInf = NegInf"

text \<open>\<open>p_max - p_min\<close>: an int for two ints, else the difference of the two floats.\<close>

definition py_sub :: "pynum \<Rightarrow> pynum \<Rightarrow> error + pynum" where
  "py_sub a b =
     (case (a, b) of
        (PyInt x, PyInt y) \<Rightarrow> Inr (PyInt (x - y))
      | _ \<Rightarrow>
          (case to_float a of
             Inl e \<Rightarrow> Inl e
           | Inr x \<Rightarrow>
               (case to_float b of Inl e \<Rightarrow> Inl e | Inr y \<Rightarrow> Inr (PyFloat (fadd x (fneg y))))))"

text \<open>
  The true division by the int \<open>m = 2**n_pbits - 1\<close>, which is not negative. Of two ints
  it raises OverflowError when the quotient is beyond the doubles; a float numerator has
  the divisor converted first. A zero divisor raises ZeroDivisionError.
\<close>

definition py_truediv :: "pynum \<Rightarrow> int \<Rightarrow> error + pyfloat" where
  "py_truediv a m =
     (case a of
        PyInt x \<Rightarrow>
          if m = 0 then Inl ZeroDivisionError
          else if float_limit \<le> \<bar>of_int x / of_int m\<bar> then Inl OverflowError
          else Inr (Finite (of_int x / of_int m))
      | PyFloat f \<Rightarrow>
          (case float_of_int m of
             Inl e \<Rightarrow> Inl e
           | Inr d \<Rightarrow>
               if m = 0 then Inl ZeroDivisionError
               else Inr (case f of
                           Finite x \<Rightarrow> fl (x / of_int m)
                         | PosInf \<Rightarrow> PosInf | NegInf \<Rightarrow> NegInf | NaN \<Rightarrow> NaN)))"

text \<open>
  \<open>p = p_min + dec_val*((p_max-p_min)/(2**n_pbits-1))\<close>, the operations in the order
  Python evaluates them: the difference, the division, the product with the int
  \<open>dec_val\<close> (converted to a float), the sum with \<open>p_min\<close> (converted if an int).
\<close>

definition rescale :: "nat \<Rightarrow> pynum \<times> pynum \<Rightarrow> int \<Rightarrow> error + pyfloat" where
  "rescale n_pbits r dec_val =
     (case py_sub (snd r) (fst r) of
        Inl e \<Rightarrow> Inl e
      | Inr d \<Rightarrow>
          (case py_truediv d (2 ^ n_pbits - 1) of
             Inl e \<Rightarrow> Inl e
           | Inr q \<Rightarrow>
               (case float_of_int dec_val of
                  Inl e \<Rightarrow> Inl e
                | Inr c \<Rightarrow>
                    (case to_float (fst r) of
                       Inl e \<Rightarrow> Inl e
                     | Inr lo \<Rightarrow> Inr (fadd lo (fmul c q))))))"

subsection \<open>The decoder\<close>

text \<open>Python 3's \<open>round(p, 0)\<close>: to the nearest integer, a tie going to the even one.\<close>

definition py_round :: "real \<Rightarrow> int" where
  "py_round x =
     (let f = \<lfloor>x\<rfloor>; d = x - of_int f
      in if d < 1 / 2 then f else if 1 / 2 < d then f + 1
         else if even f then f else f + 1)"

text \<open>
  Lines 149 to 152, shared by \<open>_evalFunction\<close> and the final decode of \<open>_fit\<close>: the
  phenotype of the \<open>j\<close>-th hyperparameter, whose segment starts at bit \<open>i\<close>.
\<close>

definition phenotype :: "hparams \<Rightarrow> genome \<Rightarrow> nat \<Rightarrow> nat \<Rightarrow> error + pyfloat" where
  "phenotype h individual i j =
     (case int_of_bin_str (take (bitwidth h) (drop i individual)) of
        Inl e \<Rightarrow> Inl e
      | Inr dec_val \<Rightarrow>
          if length (range_hp h) \<le> j then Inl IndexError
          else rescale (bitwidth h) (range_hp h ! j) dec_val)"

text \<open>
  Line 153: \<open>if hparam in ['max_depth']: p = int(round(p, 0))\<close>. \<open>int\<close> raises
  OverflowError on an infinity and ValueError on NaN.
\<close>

definition eval_value :: "string \<Rightarrow> pyfloat \<Rightarrow> error + pval" where
  "eval_value hparam p =
     (if hparam \<in> set [''max_depth'']
      then (case p of
              Finite x \<Rightarrow> Inr (PInt (py_round x))
            | NaN \<Rightarrow> Inl ValueError
            | _ \<Rightarrow> Inl OverflowError)
      else Inr (PFloat p))"

text \<open>
  The loop of lines 148 to 155 over \<open>enumerate(hparams['names'])\<close>, from index \<open>j\<close> and
  bit offset \<open>i\<close>: each value is set on the estimator; the final offset is returned.
\<close>

fun set_hparams ::
  "hparams \<Rightarrow> genome \<Rightarrow> string list \<Rightarrow> nat \<Rightarrow> nat \<Rightarrow> (string \<rightharpoonup> pval)
     \<Rightarrow> error + ((string \<rightharpoonup> pval) \<times> nat)" where
  "set_hparams h individual [] j i est = Inr (est, i)"
| "set_hparams h individual (hparam # rest) j i est =
     (case phenotype h individual i j of
        Inl e \<Rightarrow> Inl e
      | Inr p \<Rightarrow>
          (case eval_value hparam p of
             Inl e \<Rightarrow> Inl e
           | Inr v \<Rightarrow>
               set_hparams h individual rest (Suc j) (i + bitwidth h) (est(hparam \<mapsto> v))))"

section \<open>The fitness function\<close>

text \<open>\<open>np.mean\<close> and \<open>np.std\<close> (population standard deviation) of the fold scores.\<close>

definition np_mean :: "real list \<Rightarrow> real" where
  "np_mean xs = sum_list xs / real (length xs)"

definition np_std :: "real list \<Rightarrow> real" where
  "np_std xs = sqrt (np_mean (map (\<lambda>x. (x - np_mean xs)\<^sup>2) xs))"

text \<open>
  \<open>_evalFunction\<close>. The data \<open>X, y, groups, cv, scorer, fit_params\<close> are fixed during a
  run: \<open>cross_val_score\<close> is taken as a function \<open>cvs\<close> of the estimator's attributes and of
  the feature mask, and \<open>X\<close> is present through its number of columns \<open>n_columns\<close> (a
  boolean mask of another length makes the indexing \<open>X[:, mask]\<close> raise IndexError).
  The estimator and the cache are the objects the caller passed: what is written to them
  is in the state returned.
\<close>

definition evalFunction ::
  "((string \<rightharpoonup> pval) \<Rightarrow> genome \<Rightarrow> real list) \<Rightarrow> nat \<Rightarrow> nat \<Rightarrow> hparams option \<Rightarrow> bool
     \<Rightarrow> eval_state \<Rightarrow> genome \<Rightarrow> error + (fitness \<times> eval_state)" where
  "evalFunction cvs n_columns max_features hp caching st individual =
     (case (case hp of
              None \<Rightarrow> Inr (estimator st, 0)
            | Some h \<Rightarrow> set_hparams h individual (names h) 0 0 (estimator st)) of
        Inl e \<Rightarrow> Inl e
      | Inr (est, i) \<Rightarrow>
          let individual = drop i individual;
              individual_sum = sum_list individual;
              st = st\<lparr>estimator := est\<rparr>
          in if individual_sum = 0 \<or> individual_sum > int max_features
             then Inr ((- 10000, individual_sum, 10000), st)
             else (case (if caching then scores_cache st individual else None) of
                     Some c \<Rightarrow> Inr ((fst c, individual_sum, snd c), st)
                   | None \<Rightarrow>
                       if length individual \<noteq> n_columns then Inl IndexError
                       else
                         let scores = cvs est individual;
                             scores_mean = np_mean scores;
                             scores_std = np_std scores;
                             st = st\<lparr>cv_calls := Suc (cv_calls st)\<rparr>
                         in Inr ((scores_mean, individual_sum, scores_std),
                                 if caching
                                 then st\<lparr>scores_cache :=
                                           (scores_cache st)(individual \<mapsto> (scores_mean, scores_std))\<rparr>
                                 else st)))"

text \<open>The number of bits of all hyperparameters (\<open>__init__\<close>, line 294).\<close>

definition hparam_bits_of :: "hparams option \<Rightarrow> nat" where
  "hparam_bits_of hp = (case hp of None \<Rightarrow> 0 | Some h \<Rightarrow> length (names h) * bitwidth h)"

text \<open>
  A hyperparameter spec the decoder accepts: a bit width from 1 to 1023 (so that
  \<open>2**bitwidth - 1\<close> and every decoded integer convert to floats), and for every name a
  range of two numbers within the doubles whose difference is within the doubles.
\<close>

definition num_value :: "pynum \<Rightarrow> real" where
  "num_value x = (case x of PyInt i \<Rightarrow> of_int i | PyFloat (Finite v) \<Rightarrow> v | PyFloat _ \<Rightarrow> 0)"

definition num_ok :: "pynum \<Rightarrow> bool" where
  "num_ok x =
     (case x of
        PyInt i \<Rightarrow> \<bar>of_int i\<bar> < float_limit
      | PyFloat (Finite v) \<Rightarrow> \<bar>v\<bar> < float_limit
      | PyFloat _ \<Rightarrow> False)"

definition range_ok :: "pynum \<times> pynum \<Rightarrow> bool" where
  "range_ok r =
     (num_ok (fst r) \<and> num_ok (snd r) \<and> \<bar>num_value (snd r) - num_value (fst r)\<bar> < float_limit)"


text \<open>
  The hyperparameter block of \<open>_evalFunction\<close> (lines 144 to 156) on its own: the
  estimator after the \<open>setattr\<close> calls and the offset at which the feature segment starts.
\<close>

definition decode_prefix ::
  "hparams option \<Rightarrow> genome \<Rightarrow> (string \<rightharpoonup> pval) \<Rightarrow> error + ((string \<rightharpoonup> pval) \<times> nat)" where
  "decode_prefix hp individual est =
     (case hp of None \<Rightarrow> Inr (est, 0) | Some h \<Rightarrow> set_hparams h individual (names h) 0 0 est)"

text \<open>The number of set bits of a segment.\<close>

definition count_ones :: "genome \<Rightarrow> nat" where
  "count_ones bs = length (filter (\<lambda>b. b = 1) bs)"

section \<open>The population initializer\<close>

text \<open>
  The state of numpy's global generator is a stream of raw draws, so that a theorem about
  every stream is about every outcome of the draws. \<open>np.random.randint(low, high)\<close>
  returns an integer of \<open>[low, high)\<close> and raises ValueError when the interval is empty.
\<close>

definition randint :: "nat \<Rightarrow> nat \<Rightarrow> nat stream \<Rightarrow> error + (nat \<times> nat stream)" where
  "randint low high g =
     (if high \<le> low then Inl ValueError else Inr (low + shd g mod (high - low), stl g))"

text \<open>
  \<open>np.random.shuffle(x)\<close>: for \<open>i\<close> from \<open>len(x) - 1\<close> down to 1, swap \<open>x[i]\<close> with
  \<open>x[j]\<close> for a drawn \<open>j\<close> of \<open>[0, i]\<close>.
\<close>

fun shuffle_down :: "nat \<Rightarrow> 'a list \<Rightarrow> nat stream \<Rightarrow> 'a list \<times> nat stream" where
  "shuffle_down 0 x g = (x, g)"
| "shuffle_down (Suc k) x g =
     (let i = Suc k; j = shd g mod (i + 1)
      in shuffle_down k (x[i := x ! j, j := x ! i]) (stl g))"

definition shuffle :: "'a list \<Rightarrow> nat stream \<Rightarrow> 'a list \<times> nat stream" where
  "shuffle x g = shuffle_down (length x - 1) x g"

text \<open>
  \<open>_createIndividual(icls, n, max_features, hparams, hparam_bits)\<close>. The sizes are natural
  numbers: \<open>[0] * (n - n_features)\<close> is the empty list when the difference is negative, as
  the truncated subtraction gives. The class \<open>icls\<close> is applied by the caller
  (\<open>initRepeat\<close> below).
\<close>

definition createIndividual ::
  "nat \<Rightarrow> nat \<Rightarrow> hparams option \<Rightarrow> nat \<Rightarrow> nat stream \<Rightarrow> error + (genome \<times> nat stream)" where
  "createIndividual n max_features hp hparam_bits g =
     (case randint 1 (max_features + 1) g of
        Inl e \<Rightarrow> Inl e
      | Inr (n_features, g) \<Rightarrow>
          let (f_genome, g) = shuffle (replicate n_features 1 @ replicate (n - n_features) 0) g
          in (case hp of
                Some h \<Rightarrow>
                  (case randint 0 (hparam_bits + 1) g of
                     Inl e \<Rightarrow> Inl e
                   | Inr (n_1, g) \<Rightarrow>
                       let (h_genome, g) =
                             shuffle (replicate n_1 1 @ replicate (hparam_bits - n_1) 0) g
                       in Inr (h_genome @ f_genome, g))
              | None \<Rightarrow> Inr (f_genome, g)))"

section \<open>The generational loop\<close>

text \<open>
  An individual (\<open>creator.Individual_new\<close>): the list of bits and a fitness, which is
  invalid (\<open>None\<close>) until the individual is evaluated.
\<close>

record individual =
  genes :: genome
  fitness :: "fitness option"

definition Individual_new :: "genome \<Rightarrow> individual" where
  "Individual_new bits = \<lparr>genes = bits, fitness = None\<rparr>"

text \<open>
  The hall of fame and the fitness ordering are objects of the DEAP library, which
  \<open>_eaFunction\<close> receives as arguments. The ordering \<open>gt\<close> of two valid fitnesses is a
  parameter of the model. An invalid fitness has no weighted values: it is greater than
  nothing, and every valid fitness is greater than it.
\<close>

definition fitness_gt ::
  "(fitness \<Rightarrow> fitness \<Rightarrow> bool) \<Rightarrow> fitness option \<Rightarrow> fitness option \<Rightarrow> bool" where
  "fitness_gt gt a b =
     (case a of None \<Rightarrow> False | Some x \<Rightarrow> (case b of None \<Rightarrow> True | Some y \<Rightarrow> gt x y))"

text \<open>
  Modelled from the spec: \<open>HallOfFame.update\<close> of DEAP for the hall of fame of size 1
  with \<open>similar=np.array_equal\<close> that \<open>_fit\<close> builds (line 371), which is not under src/.
  It retains the single best chromosome seen: an empty hall takes the first individual; an
  individual replaces the member when its fitness is greater and its bits differ; the
  member persists unchanged if no candidate improves on it.
\<close>

fun hof_update ::
  "(fitness \<Rightarrow> fitness \<Rightarrow> bool) \<Rightarrow> individual list \<Rightarrow> individual list \<Rightarrow> individual list" where
  "hof_update gt items [] = items"
| "hof_update gt [] (ind # population) = hof_update gt [ind] population"
| "hof_update gt (hofer # others) (ind # population) =
     (if fitness_gt gt (fitness ind) (fitness hofer) \<and> genes ind \<noteq> genes hofer
      then hof_update gt [ind] population
      else hof_update gt (hofer # others) population)"

text \<open>
  Lines 52 to 55 and 90 to 93: the individuals with an invalid fitness are evaluated in
  order (\<open>toolbox.map\<close> is the sequential \<open>map\<close> when \<open>n_jobs\<close> is 1) and get their
  fitness; the evaluator's state goes from one call to the next.
\<close>

fun evaluate_invalid ::
  "(eval_state \<Rightarrow> genome \<Rightarrow> error + (fitness \<times> eval_state)) \<Rightarrow> eval_state \<Rightarrow> individual list
     \<Rightarrow> error + (individual list \<times> eval_state)" where
  "evaluate_invalid evaluate st [] = Inr ([], st)"
| "evaluate_invalid evaluate st (ind # inds) =
     (if fitness ind \<noteq> None
      then (case evaluate_invalid evaluate st inds of
              Inl e \<Rightarrow> Inl e
            | Inr (inds', st') \<Rightarrow> Inr (ind # inds', st'))
      else (case evaluate st (genes ind) of
              Inl e \<Rightarrow> Inl e
            | Inr (fit, st1) \<Rightarrow>
                (case evaluate_invalid evaluate st1 inds of
                   Inl e \<Rightarrow> Inl e
                 | Inr (inds', st') \<Rightarrow> Inr (ind\<lparr>fitness := Some fit\<rparr> # inds', st'))))"

definition nevals :: "individual list \<Rightarrow> nat" where
  "nevals inds = length (filter (\<lambda>ind. fitness ind = None) inds)"

text \<open>
  Lines 76 to 84. \<open>algorithms.varAnd\<close> with the toolbox's crossover and mutation and the
  two probabilities is the parameter \<open>varAnd\<close>, a function of the individuals and of the
  state \<open>g\<close> of Python's random generator. The loop runs once per hyperparameter name
  (\<open>k\<close> counts the names left), then once for the feature segment \<open>ind[i:]\<close>.
\<close>

fun vary_segments ::
  "(individual list \<Rightarrow> 'g \<Rightarrow> individual list \<times> 'g) \<Rightarrow> nat \<Rightarrow> nat \<Rightarrow> nat \<Rightarrow> individual list \<Rightarrow> 'g
     \<Rightarrow> individual list list \<times> 'g" where
  "vary_segments varAnd n_pbits 0 i offspring g =
     (let offspring_f = map (\<lambda>ind. Individual_new (drop i (genes ind))) offspring;
          (varied, g) = varAnd offspring_f g
      in ([varied], g))"
| "vary_segments varAnd n_pbits (Suc k) i offspring g =
     (let offspring_h = map (\<lambda>ind. Individual_new (take n_pbits (drop i (genes ind)))) offspring;
          (varied, g) = varAnd offspring_h g;
          (rest, g) = vary_segments varAnd n_pbits k (i + n_pbits) offspring g
      in (varied # rest, g))"

text \<open>Python's \<open>zip(*genes)\<close>: the tuples of \<open>k\<close>-th elements, up to the shortest list.\<close>

definition zip_star :: "'a list list \<Rightarrow> 'a list list" where
  "zip_star ls =
     (if ls = [] then []
      else map (\<lambda>k. map (\<lambda>l. l ! k) ls) [0..<Min (set (map length ls))])"

text \<open>Lines 75 to 87: the variation of the selected offspring.\<close>

definition vary ::
  "(individual list \<Rightarrow> 'g \<Rightarrow> individual list \<times> 'g) \<Rightarrow> hparams option \<Rightarrow> individual list \<Rightarrow> 'g
     \<Rightarrow> individual list \<times> 'g" where
  "vary varAnd hp offspring g =
     (case hp of
        Some h \<Rightarrow>
          let (segments, g) = vary_segments varAnd (bitwidth h) (length (names h)) 0 offspring g
          in (map (\<lambda>ind. Individual_new (concat (map genes ind))) (zip_star segments), g)
      | None \<Rightarrow> varAnd offspring g)"

text \<open>
  The slices of lines 80 and 83: \<open>ind[i:i+n_pbits]\<close> with \<open>i = j * n_pbits\<close> for the
  \<open>j\<close>-th hyperparameter, and \<open>ind[i:]\<close> with \<open>i = len(names) * n_pbits\<close> for the features.
\<close>

definition segment_of :: "hparams \<Rightarrow> nat \<Rightarrow> genome \<Rightarrow> genome" where
  "segment_of h j bits =
     (if j < length (names h) then take (bitwidth h) (drop (j * bitwidth h) bits)
      else drop (length (names h) * bitwidth h) bits)"

text \<open>
  What crossover and mutation guarantee (they act per position, without resizing): the
  variation returns as many individuals as it was given, each of the length it had.
\<close>

definition keeps_shape :: "(individual list \<Rightarrow> 'g \<Rightarrow> individual list \<times> 'g) \<Rightarrow> bool" where
  "keeps_shape varAnd =
     (\<forall>xs g. length (fst (varAnd xs g)) = length xs
        \<and> (\<forall>k<length xs. length (genes (fst (varAnd xs g) ! k)) = length (genes (xs ! k))))"

text \<open>
  The variables of \<open>_eaFunction\<close> at the end of a generation, with the state of the
  random generator and of the evaluator.
\<close>

record 'g ea_state =
  population :: "individual list"
  halloffame :: "individual list"
  wait :: nat
  logbook :: "(nat \<times> nat) list"
  rng :: 'g
  evals :: eval_state

text \<open>
  The body of the loop (lines 71 to 118) for generation \<open>gen\<close>. \<open>toolbox.select\<close> is the
  parameter \<open>select\<close>. \<open>halloffame[0]\<close> raises IndexError on an empty hall of fame. The
  logbook keeps \<open>gen\<close> and \<open>nevals\<close>; the statistics are not modelled.
\<close>

definition ea_generation ::
  "(individual list \<Rightarrow> nat \<Rightarrow> 'g \<Rightarrow> individual list \<times> 'g)
     \<Rightarrow> (individual list \<Rightarrow> 'g \<Rightarrow> individual list \<times> 'g)
     \<Rightarrow> (eval_state \<Rightarrow> genome \<Rightarrow> error + (fitness \<times> eval_state))
     \<Rightarrow> (fitness \<Rightarrow> fitness \<Rightarrow> bool) \<Rightarrow> hparams option \<Rightarrow> nat \<Rightarrow> nat \<Rightarrow> 'g ea_state
     \<Rightarrow> error + 'g ea_state" where
  "ea_generation select varAnd evaluate gt hp hof_size gen s =
     (let (offspring, g) = select (population s) (length (population s) - hof_size) (rng s);
          (offspring, g) = vary varAnd hp offspring g
      in case evaluate_invalid evaluate (evals s) offspring of
           Inl e \<Rightarrow> Inl e
         | Inr (evaluated, st) \<Rightarrow>
             let offspring' = evaluated @ halloffame s
             in (case halloffame s of
                   [] \<Rightarrow> Inl IndexError
                 | prev_best # _ \<Rightarrow>
                     let items = hof_update gt (halloffame s) offspring'
                     in Inr \<lparr>population = offspring',
                             halloffame = items,
                             wait = (if genes (hd items) = genes prev_best then wait s + 1 else 0),
                             logbook = logbook s @ [(gen, nevals offspring)],
                             rng = g,
                             evals = st\<rparr>))"

text \<open>Line 121: \<open>ngen_no_change is not None and wait >= ngen_no_change\<close>.\<close>

definition stagnated :: "int option \<Rightarrow> 'g ea_state \<Rightarrow> bool" where
  "stagnated ngen_no_change s =
     (case ngen_no_change of None \<Rightarrow> False | Some k \<Rightarrow> int (wait s) \<ge> k)"

text \<open>
  The \<open>for\<close> loop over the generations with its \<open>break\<close>. It returns the states at the
  end of each generation it ran; the function returns from the last of them.
\<close>

fun ea_loop ::
  "(nat \<Rightarrow> 'g ea_state \<Rightarrow> error + 'g ea_state) \<Rightarrow> int option \<Rightarrow> nat list \<Rightarrow> 'g ea_state
     \<Rightarrow> error + 'g ea_state list" where
  "ea_loop body ngen_no_change [] s = Inr []"
| "ea_loop body ngen_no_change (gen # gens) s =
     (case body gen s of
        Inl e \<Rightarrow> Inl e
      | Inr s' \<Rightarrow>
          if stagnated ngen_no_change s' then Inr [s']
          else (case ea_loop body ngen_no_change gens s' of
                  Inl e \<Rightarrow> Inl e
                | Inr rest \<Rightarrow> Inr (s' # rest)))"

text \<open>
  \<open>_eaFunction\<close>: the result is the history of the run, the state after the evaluation of
  the initial population followed by the state after each generation; the population and
  the logbook the source returns are those of the last state.
\<close>

definition eaFunction ::
  "(individual list \<Rightarrow> nat \<Rightarrow> 'g \<Rightarrow> individual list \<times> 'g)
     \<Rightarrow> (individual list \<Rightarrow> 'g \<Rightarrow> individual list \<times> 'g)
     \<Rightarrow> (eval_state \<Rightarrow> genome \<Rightarrow> error + (fitness \<times> eval_state))
     \<Rightarrow> (fitness \<Rightarrow> fitness \<Rightarrow> bool)
     \<Rightarrow> individual list \<Rightarrow> nat \<Rightarrow> int option \<Rightarrow> individual list option \<Rightarrow> hparams option
     \<Rightarrow> 'g \<Rightarrow> eval_state \<Rightarrow> error + 'g ea_state list" where
  "eaFunction select varAnd evaluate gt pop ngen ngen_no_change hof hp g st =
     (case evaluate_invalid evaluate st pop of
        Inl e \<Rightarrow> Inl e
      | Inr (evaluated, st) \<Rightarrow>
          (case hof of
             None \<Rightarrow> Inl ValueError
           | Some items0 \<Rightarrow>
               let items = hof_update gt items0 evaluated;
                   hof_size = (if items \<noteq> [] then length items else 0);
                   s0 = \<lparr>population = evaluated, halloffame = items, wait = 0,
                         logbook = [(0, nevals pop)], rng = g, evals = st\<rparr>
               in (case ea_loop (ea_generation select varAnd evaluate gt hp hof_size)
                          ngen_no_change [1..<ngen + 1] s0 of
                     Inl e \<Rightarrow> Inl e
                   | Inr history \<Rightarrow> Inr (s0 # history))))"

section \<open>The estimator object and \<open>_fit\<close>\<close>

text \<open>
  The attributes of \<open>GeneticSelectionCV_mod\<close> the search reads or writes. The options of
  the scorer, of the folds and of the genetic operators are inside the functions \<open>cvs\<close>,
  \<open>select\<close> and \<open>varAnd\<close> that \<open>fit\<close> takes. The attributes with a trailing underscore
  are unset until \<open>_fit\<close> has run.
\<close>

record GeneticSelectionCV_mod =
  self_estimator :: "string \<rightharpoonup> pval"
  self_max_features :: "int option"
  self_n_jobs :: int
  self_n_population :: nat
  self_n_generations :: nat
  self_n_gen_no_change :: "int option"
  self_hparams :: "hparams option"
  self_hparam_bits :: nat
  self_caching :: bool
  self_scores_cache :: "genome \<rightharpoonup> (real \<times> real)"
  self_best_params_ :: "(string \<rightharpoonup> pval) option"
  self_support_ :: "bool list option"
  self_n_features_ :: "nat option"


text \<open>\<open>tools.initRepeat(list, toolbox.individual, n)\<close>: \<open>n\<close> calls of the initializer.\<close>

fun initRepeat ::
  "(nat stream \<Rightarrow> error + (genome \<times> nat stream)) \<Rightarrow> nat \<Rightarrow> nat stream
     \<Rightarrow> error + (individual list \<times> nat stream)" where
  "initRepeat func 0 g = Inr ([], g)"
| "initRepeat func (Suc n) g =
     (case func g of
        Inl e \<Rightarrow> Inl e
      | Inr (bits, g) \<Rightarrow>
          (case initRepeat func n g of
             Inl e \<Rightarrow> Inl e
           | Inr (inds, g) \<Rightarrow> Inr (Individual_new bits # inds, g)))"

text \<open>
  The final decode of \<open>_fit\<close> (lines 396 to 403) over \<open>enumerate(self.hparams['names'])\<close>:
  \<open>best_params_[hparam] = p\<close>.
\<close>

fun decode_best ::
  "hparams \<Rightarrow> genome \<Rightarrow> string list \<Rightarrow> nat \<Rightarrow> nat \<Rightarrow> (string \<rightharpoonup> pval)
     \<Rightarrow> error + (string \<rightharpoonup> pval)" where
  "decode_best h best_params_binstr [] j i best_params = Inr best_params"
| "decode_best h best_params_binstr (hparam # rest) j i best_params =
     (case phenotype h best_params_binstr i j of
        Inl e \<Rightarrow> Inl e
      | Inr p \<Rightarrow>
          decode_best h best_params_binstr rest (Suc j) (i + bitwidth h)
            (best_params(hparam \<mapsto> PFloat p)))"

text \<open>
  \<open>_fit\<close>, for \<open>X\<close> with \<open>n_features\<close> columns. The checks of \<open>X\<close>, \<open>y\<close>, \<open>cv\<close> and the
  scorer belong to scikit-learn and are taken as passed; \<open>max_features\<close> and
  \<open>n_gen_no_change\<close> are integers by their types. \<open>clone(self.estimator)\<close> is a copy of
  the estimator's attributes; the \<open>scores_cache\<close> registered with \<open>evaluate\<close> is the dict
  \<open>self.scores_cache\<close> itself, so what the evaluations write to it is on the object after
  the run. With \<open>n_jobs\<close> other than 1 the evaluations run in a process pool, which is
  outside this model: the theorems about \<open>fit\<close> are for \<open>n_jobs = 1\<close>. The mask
  \<open>support_\<close> is the boolean array of the best chromosome's feature bits. The attributes
  \<open>estimator_\<close> (the refit of a second clone) and \<open>generation_scores_\<close> (from the
  statistics) are not modelled. The result is the object with its fitted attributes, and
  the history of the run.
\<close>

definition fit ::
  "((string \<rightharpoonup> pval) \<Rightarrow> genome \<Rightarrow> real list)
     \<Rightarrow> (individual list \<Rightarrow> nat \<Rightarrow> 'g \<Rightarrow> individual list \<times> 'g)
     \<Rightarrow> (individual list \<Rightarrow> 'g \<Rightarrow> individual list \<times> 'g)
     \<Rightarrow> (fitness \<Rightarrow> fitness \<Rightarrow> bool)
     \<Rightarrow> nat \<Rightarrow> nat stream \<Rightarrow> 'g \<Rightarrow> GeneticSelectionCV_mod
     \<Rightarrow> error + (GeneticSelectionCV_mod \<times> 'g ea_state list)" where
  "fit cvs select varAnd gt n_features np g self =
     (case (case self_max_features self of
              Some m \<Rightarrow> if m < 1 \<or> m > int n_features then Inl ValueError else Inr (nat m)
            | None \<Rightarrow> Inr n_features) of
        Inl e \<Rightarrow> Inl e
      | Inr max_features \<Rightarrow>
          if self_n_jobs self = 0 then Inl ValueError
          else
            (case initRepeat (createIndividual n_features max_features (self_hparams self)
                                (self_hparam_bits self)) (self_n_population self) np of
               Inl e \<Rightarrow> Inl e
             | Inr (pop, np) \<Rightarrow>
                 (case eaFunction select varAnd
                         (evalFunction cvs n_features max_features (self_hparams self)
                            (self_caching self)) gt
                         pop (self_n_generations self) (self_n_gen_no_change self) (Some [])
                         (self_hparams self) g
                         \<lparr>estimator = self_estimator self,
                          scores_cache = self_scores_cache self, cv_calls = 0\<rparr> of
                    Inl e \<Rightarrow> Inl e
                  | Inr history \<Rightarrow>
                      (case halloffame (last history) of
                         [] \<Rightarrow> Inl IndexError
                       | best # _ \<Rightarrow>
                           (case (case self_hparams self of
                                    Some h \<Rightarrow>
                                      (case decode_best h (take (self_hparam_bits self) (genes best))
                                              (names h) 0 0 Map.empty of
                                         Inl e \<Rightarrow> Inl e
                                       | Inr best_params \<Rightarrow>
                                           Inr (map (\<lambda>b. b \<noteq> 0)
                                                  (drop (self_hparam_bits self) (genes best)),
                                                best_params))
                                  | None \<Rightarrow>
                                      Inr (map (\<lambda>b. b \<noteq> 0) (genes best),
                                           self_estimator self)) of
                              Inl e \<Rightarrow> Inl e
                            | Inr (support, best_params) \<Rightarrow>
                                Inr (self\<lparr>self_scores_cache :=
                                            scores_cache (evals (last history)),
                                          self_best_params_ := Some best_params,
                                          self_support_ := Some support,
                                          self_n_features_ :=
                                            Some (length (filter id support))\<rparr>,
                                     history))))))"








section \<open>Concrete inputs\<close>

text \<open>The inputs at which the theorems below are instantiated.\<close>

definition state0 :: eval_state where
  "state0 = \<lparr>estimator = Map.empty, scores_cache = Map.empty, cv_calls = 0\<rparr>"

text \<open>The state after the evaluation of \<open>[0, 0, 1]\<close> under \<open>hp_C\<close> with the scorer \<open>cv_C\<close>.\<close>

definition state1 :: eval_state where
  "state1 = \<lparr>estimator = [''C'' \<mapsto> PFloat (Finite 0)], scores_cache = [[1] \<mapsto> (0, 0)], cv_calls = 1\<rparr>"

definition hp_C :: hparams where
  "hp_C = \<lparr>names = [''C''], bitwidth = 2, range_hp = [(PyInt 0, PyInt 1)]\<rparr>"

definition hp_depth :: hparams where
  "hp_depth = \<lparr>names = [''max_depth''], bitwidth = 2, range_hp = [(PyInt 1, PyInt 3)]\<rparr>"

text \<open>Two hyperparameters of two bits each.\<close>

definition hp_two :: hparams where
  "hp_two = \<lparr>names = [''C'', ''gamma''], bitwidth = 2,
             range_hp = [(PyInt 0, PyInt 1), (PyInt 0, PyInt 1)]\<rparr>"

text \<open>A scorer whose single fold score is the estimator's attribute \<open>C\<close>.\<close>

definition cv_C :: "(string \<rightharpoonup> pval) \<Rightarrow> genome \<Rightarrow> real list" where
  "cv_C est fmask = [case est ''C'' of Some (PFloat (Finite x)) \<Rightarrow> x | _ \<Rightarrow> 0]"


text \<open>A selection that takes the first \<open>k\<close> individuals.\<close>

definition sel_take :: "individual list \<Rightarrow> nat \<Rightarrow> unit \<Rightarrow> individual list \<times> unit" where
  "sel_take pop k g = (take k pop, g)"

text \<open>A variation that flips every bit of every individual.\<close>

definition var_flip :: "individual list \<Rightarrow> unit \<Rightarrow> individual list \<times> unit" where
  "var_flip inds g = (map (\<lambda>ind. Individual_new (map (\<lambda>b. 1 - b) (genes ind))) inds, g)"

text \<open>
  The comparison of two fitnesses by their weighted sum, with the weights
  \<open>(1.0, -0.1, -0.5)\<close> of line 42.
\<close>

definition weighted_gt :: "fitness \<Rightarrow> fitness \<Rightarrow> bool" where
  "weighted_gt a b =
     (case a of (m, c, d) \<Rightarrow> case b of (m', c', d') \<Rightarrow>
        m - of_int c / 10 - d / 2 > m' - of_int c' / 10 - d' / 2)"

text \<open>A scorer whose single fold score is the number of selected features.\<close>

definition cv_count :: "(string \<rightharpoonup> pval) \<Rightarrow> genome \<Rightarrow> real list" where
  "cv_count est fmask = [of_int (sum_list fmask)]"

text \<open>
  The three states of a run of two generations from two copies of \<open>[1, 0, 0]\<close>, with
  \<open>sel_take\<close>, \<open>var_flip\<close>, \<open>cv_count\<close> and \<open>weighted_gt\<close>.
\<close>

definition run_s0 :: "unit ea_state" where
  "run_s0 =
     \<lparr>population = [\<lparr>genes = [1, 0, 0], fitness = Some (1, 1, 0)\<rparr>,
                    \<lparr>genes = [1, 0, 0], fitness = Some (1, 1, 0)\<rparr>],
      halloffame = [\<lparr>genes = [1, 0, 0], fitness = Some (1, 1, 0)\<rparr>],
      wait = 0, logbook = [(0, 2)], rng = (),
      evals = \<lparr>estimator = Map.empty, scores_cache = Map.empty, cv_calls = 2\<rparr>\<rparr>"

definition run_s1 :: "unit ea_state" where
  "run_s1 =
     \<lparr>population = [\<lparr>genes = [0, 1, 1], fitness = Some (2, 2, 0)\<rparr>,
                    \<lparr>genes = [1, 0, 0], fitness = Some (1, 1, 0)\<rparr>],
      halloffame = [\<lparr>genes = [0, 1, 1], fitness = Some (2, 2, 0)\<rparr>],
      wait = 0, logbook = [(0, 2), (1, 1)], rng = (),
      evals = \<lparr>estimator = Map.empty, scores_cache = Map.empty, cv_calls = 3\<rparr>\<rparr>"

definition run_s2 :: "unit ea_state" where
  "run_s2 =
     \<lparr>population = [\<lparr>genes = [1, 0, 0], fitness = Some (1, 1, 0)\<rparr>,
                    \<lparr>genes = [0, 1, 1], fitness = Some (2, 2, 0)\<rparr>],
      halloffame = [\<lparr>genes = [0, 1, 1], fitness = Some (2, 2, 0)\<rparr>],
      wait = 1, logbook = [(0, 2), (1, 1), (2, 1)], rng = (),
      evals = \<lparr>estimator = Map.empty, scores_cache = Map.empty, cv_calls = 4\<rparr>\<rparr>"

text \<open>The state after a third generation of that run, for the limit 2.\<close>

definition run_s3 :: "unit ea_state" where
  "run_s3 =
     \<lparr>population = [\<lparr>genes = [0, 1, 1], fitness = Some (2, 2, 0)\<rparr>,
                    \<lparr>genes = [0, 1, 1], fitness = Some (2, 2, 0)\<rparr>],
      halloffame = [\<lparr>genes = [0, 1, 1], fitness = Some (2, 2, 0)\<rparr>],
      wait = 2, logbook = [(0, 2), (1, 1), (2, 1), (3, 1)], rng = (),
      evals = \<lparr>estimator = Map.empty, scores_cache = Map.empty, cv_calls = 5\<rparr>\<rparr>"










section \<open>Properties of the decoder\<close>

lemma float_limit_big: "2 ^ 1023 < float_limit"
proof -
  have "(2::real) ^ 970 < 2 ^ 1023" by (rule power_strict_increasing) simp_all
  moreover have "(2::real) ^ 1024 = 2 * 2 ^ 1023"
  proof -
    have "(1024::nat) = Suc 1023" by simp
    then show ?thesis by (simp only: power_Suc)
  qed
  ultimately show ?thesis unfolding float_limit_def by linarith
qed

lemma pow_below_limit: "n < 1024 \<Longrightarrow> (2::real) ^ n < float_limit"
proof -
  assume "n < 1024"
  then have "n \<le> 1023" by simp
  then have "(2::real) ^ n \<le> 2 ^ 1023" by (intro power_increasing) simp_all
  with float_limit_big show ?thesis by linarith
qed

lemma small_below_limit: "\<bar>x\<bar> \<le> 4 \<Longrightarrow> \<bar>x\<bar> < float_limit"
proof -
  assume a: "\<bar>x\<bar> \<le> 4"
  have "(4::real) = 2 ^ 2" by simp
  also have "\<dots> < float_limit" by (rule pow_below_limit) simp
  finally show ?thesis using a by linarith
qed

lemma fl_finite: "\<bar>x\<bar> < float_limit \<Longrightarrow> fl x = Finite x"
  by (auto simp: fl_def)

lemma float_of_int_ok: "\<bar>of_int i\<bar> < float_limit \<Longrightarrow> float_of_int i = Inr (Finite (of_int i))"
  by (simp add: float_of_int_def)

lemma to_float_ok: "num_ok x \<Longrightarrow> to_float x = Inr (Finite (num_value x))"
  by (auto simp: to_float_def num_ok_def num_value_def float_of_int_ok
      split: pynum.splits pyfloat.splits)



lemma abs_div_le: "1 \<le> m \<Longrightarrow> \<bar>x / m\<bar> \<le> \<bar>x :: real\<bar>"
proof -
  assume m: "1 \<le> m"
  have "\<bar>x\<bar> / m \<le> \<bar>x\<bar> / 1" by (rule divide_left_mono) (use m in auto)
  then show ?thesis using m by (simp add: abs_divide)
qed

lemma rescale_value:
  assumes n: "0 < n" "n < 1024" and r: "range_ok r" and d: "0 \<le> d" "d \<le> 2 ^ n - 1"
  shows "rescale n r d =
    Inr (Finite (num_value (fst r)
           + real_of_int d * ((num_value (snd r) - num_value (fst r)) / real_of_int (2 ^ n - 1))))"
proof -
  let ?lo = "num_value (fst r)" and ?hi = "num_value (snd r)"
  let ?m = "(2::int) ^ n - 1"
  from r have lo: "num_ok (fst r)" and hi: "num_ok (snd r)"
    and df: "\<bar>?hi - ?lo\<bar> < float_limit" by (simp_all add: range_ok_def)
  have m1: "1 \<le> ?m" using one_less_power[of "2::int" n] n(1) by simp
  have mr: "real_of_int ?m = 2 ^ n - 1" by simp
  have ml: "\<bar>real_of_int ?m\<bar> < float_limit" using pow_below_limit[OF n(2)] m1 by simp
  have dl: "\<bar>real_of_int d\<bar> < float_limit"
  proof -
    have "real_of_int d \<le> real_of_int ?m" using d(2) by linarith
    with d(1) ml show ?thesis by simp
  qed
  define t where "t = real_of_int d / real_of_int ?m"
  have dm: "real_of_int d \<le> real_of_int ?m" using d(2) by linarith
  have mp: "0 < real_of_int ?m" using m1 by linarith
  have t: "0 \<le> t" "t \<le> 1"
  proof -
    show "0 \<le> t" unfolding t_def using d(1) mp by (intro divide_nonneg_pos) simp_all
    show "t \<le> 1" unfolding t_def using dm mp by (simp only: divide_le_eq_1_pos)
  qed
  have q: "\<bar>(?hi - ?lo) / real_of_int ?m\<bar> < float_limit"
  proof -
    have "1 \<le> real_of_int ?m" using m1 by linarith
    then have "\<bar>(?hi - ?lo) / real_of_int ?m\<bar> \<le> \<bar>?hi - ?lo\<bar>" by (rule abs_div_le)
    with df show ?thesis by linarith
  qed
  have sub: "\<exists>dd. py_sub (snd r) (fst r) = Inr dd
      \<and> py_truediv dd ?m = Inr (Finite ((?hi - ?lo) / real_of_int ?m))"
  proof (cases "\<exists>a b. snd r = PyInt a \<and> fst r = PyInt b")
    case True
    then obtain a b where ab: "snd r = PyInt a" "fst r = PyInt b" by blast
    have v: "?hi - ?lo = real_of_int (a - b)" using ab by (simp add: num_value_def)
    have "py_sub (snd r) (fst r) = Inr (PyInt (a - b))" using ab by (simp add: py_sub_def)
    moreover have "py_truediv (PyInt (a - b)) ?m = Inr (Finite ((?hi - ?lo) / real_of_int ?m))"
      using q m1 unfolding v py_truediv_def by simp
    ultimately show ?thesis by simp
  next
    case False
    have "py_sub (snd r) (fst r) = Inr (PyFloat (fadd (Finite ?hi) (fneg (Finite ?lo))))"
      using False to_float_ok[OF lo] to_float_ok[OF hi]
      by (auto simp: py_sub_def split: pynum.splits)
    moreover have "fadd (Finite ?hi) (fneg (Finite ?lo)) = Finite (?hi - ?lo)"
      using fl_finite[OF df] by simp
    moreover have "py_truediv (PyFloat (Finite (?hi - ?lo))) ?m
        = Inr (Finite ((?hi - ?lo) / real_of_int ?m))"
      using float_of_int_ok[OF ml] m1 fl_finite[OF q] unfolding py_truediv_def by simp
    ultimately show ?thesis by simp
  qed
  have r1: "\<bar>real_of_int d * ((?hi - ?lo) / real_of_int ?m)\<bar> < float_limit"
  proof -
    have "real_of_int d * ((?hi - ?lo) / real_of_int ?m) = t * (?hi - ?lo)"
      by (simp add: t_def)
    moreover have "\<bar>t * (?hi - ?lo)\<bar> \<le> \<bar>?hi - ?lo\<bar>"
    proof -
      have "t * \<bar>?hi - ?lo\<bar> \<le> 1 * \<bar>?hi - ?lo\<bar>" by (rule mult_right_mono) (use t in auto)
      then show ?thesis using t by (simp add: abs_mult)
    qed
    ultimately show ?thesis using df by linarith
  qed
  have los: "\<bar>?lo\<bar> < float_limit" "\<bar>?hi\<bar> < float_limit"
    using lo hi by (auto simp: num_ok_def num_value_def split: pynum.splits pyfloat.splits)
  have p: "\<bar>?lo + real_of_int d * ((?hi - ?lo) / real_of_int ?m)\<bar> < float_limit"
  proof -
    have e: "?lo + real_of_int d * ((?hi - ?lo) / real_of_int ?m) = (1 - t) * ?lo + t * ?hi"
    proof -
      have "real_of_int d * ((?hi - ?lo) / real_of_int ?m) = t * (?hi - ?lo)"
        by (simp add: t_def)
      then show ?thesis by (simp add: algebra_simps)
    qed
    have u: "(1 - t) * ?lo + t * ?hi < float_limit"
      by (rule convex_bound_lt) (use los t in auto)
    have l: "(1 - t) * (- ?lo) + t * (- ?hi) < float_limit"
      by (rule convex_bound_lt) (use los t in auto)
    from u l show ?thesis unfolding e by (simp add: abs_less_iff algebra_simps)
  qed
  from sub obtain dd where s1: "py_sub (snd r) (fst r) = Inr dd"
    and s2: "py_truediv dd ?m = Inr (Finite ((?hi - ?lo) / real_of_int ?m))" by blast
  show "rescale n r d = Inr (Finite (?lo + real_of_int d * ((?hi - ?lo) / real_of_int ?m)))"
    unfolding rescale_def s1 using s2 float_of_int_ok[OF dl] to_float_ok[OF lo]
      fl_finite[OF r1] fl_finite[OF p] by simp
qed






lemma set_hparams_offset:
  "set_hparams h individual ns j i est = Inr (est', i') \<Longrightarrow> i' = i + length ns * bitwidth h"
proof (induction ns arbitrary: j i est)
  case Nil
  then show ?case by simp
next
  case (Cons n ns)
  from Cons.prems obtain v where
    "set_hparams h individual ns (Suc j) (i + bitwidth h) (est(n \<mapsto> v)) = Inr (est', i')"
    by (auto split: sum.splits)
  from Cons.IH[OF this] show ?case by simp
qed


lemma set_hparams_est_indep:
  "set_hparams h individual ns j i est = Inr (e1, i') \<Longrightarrow>
   \<exists>e2. set_hparams h individual ns j i est2 = Inr (e2, i')"
proof (induction ns arbitrary: j i est est2)
  case Nil
  then show ?case by simp
next
  case (Cons n ns)
  from Cons.prems obtain p v where p: "phenotype h individual i j = Inr p"
    and v: "eval_value n p = Inr v"
    and r: "set_hparams h individual ns (Suc j) (i + bitwidth h) (est(n \<mapsto> v)) = Inr (e1, i')"
    by (auto split: sum.splits)
  from Cons.IH[OF r, of "est2(n \<mapsto> v)"] obtain e2 where
    "set_hparams h individual ns (Suc j) (i + bitwidth h) (est2(n \<mapsto> v)) = Inr (e2, i')"
    by blast
  with p v show ?case by simp
qed

lemma decode_prefix_offset:
  "decode_prefix hp individual est = Inr (est', i) \<Longrightarrow> i = hparam_bits_of hp"
  by (auto simp: decode_prefix_def hparam_bits_of_def split: option.splits dest: set_hparams_offset)


lemma decode_prefix_est_indep:
  "decode_prefix hp individual est = Inr (e1, i) \<Longrightarrow>
   \<exists>e2. decode_prefix hp individual est2 = Inr (e2, i)"
  by (auto simp: decode_prefix_def split: option.splits dest: set_hparams_est_indep)

lemma evalFunction_decode:
  "evalFunction cvs n_columns max_features hp caching st individual =
     (case decode_prefix hp individual (estimator st) of
        Inl e \<Rightarrow> Inl e
      | Inr (est, i) \<Rightarrow>
          let individual = drop i individual;
              individual_sum = sum_list individual;
              st = st\<lparr>estimator := est\<rparr>
          in if individual_sum = 0 \<or> individual_sum > int max_features
             then Inr ((- 10000, individual_sum, 10000), st)
             else (case (if caching then scores_cache st individual else None) of
                     Some c \<Rightarrow> Inr ((fst c, individual_sum, snd c), st)
                   | None \<Rightarrow>
                       if length individual \<noteq> n_columns then Inl IndexError
                       else
                         let scores = cvs est individual;
                             scores_mean = np_mean scores;
                             scores_std = np_std scores;
                             st = st\<lparr>cv_calls := Suc (cv_calls st)\<rparr>
                         in Inr ((scores_mean, individual_sum, scores_std),
                                 if caching
                                 then st\<lparr>scores_cache :=
                                           (scores_cache st)(individual \<mapsto> (scores_mean, scores_std))\<rparr>
                                 else st)))"
  by (simp add: evalFunction_def decode_prefix_def)


lemma evalFunction_hit:
  assumes "decode_prefix hp individual (estimator st) = Inr (est, i)"
    and "\<not> (sum_list (drop i individual) = 0 \<or> sum_list (drop i individual) > int max_features)"
    and "scores_cache st (drop i individual) = Some (m, d)"
  shows "evalFunction cvs n_columns max_features hp True st individual =
     Inr ((m, sum_list (drop i individual), d), st\<lparr>estimator := est\<rparr>)"
  using assms by (simp add: evalFunction_decode Let_def)

lemma evalFunction_stores:
  assumes "evalFunction cvs n_columns max_features hp True st individual = Inr ((m, k, d), st1)"
    and "\<not> (sum_list (drop (hparam_bits_of hp) individual) = 0
            \<or> sum_list (drop (hparam_bits_of hp) individual) > int max_features)"
  shows "scores_cache st1 (drop (hparam_bits_of hp) individual) = Some (m, d)
     \<and> k = sum_list (drop (hparam_bits_of hp) individual)"
proof -
  from assms(1) obtain est i where d: "decode_prefix hp individual (estimator st) = Inr (est, i)"
    by (auto simp: evalFunction_decode split: sum.splits)
  then have i: "i = hparam_bits_of hp" by (rule decode_prefix_offset)
  show ?thesis using assms d unfolding i
    by (auto simp: evalFunction_decode Let_def split: option.splits if_splits)
qed

lemma small_range_ok:
  "\<bar>real_of_int a\<bar> \<le> 4 \<Longrightarrow> \<bar>real_of_int b\<bar> \<le> 4 \<Longrightarrow> \<bar>real_of_int b - real_of_int a\<bar> \<le> 4 \<Longrightarrow>
   range_ok (PyInt a, PyInt b)"
  by (simp add: range_ok_def num_ok_def num_value_def small_below_limit)


lemma rescale_hp_C:
  "0 \<le> d \<Longrightarrow> d \<le> 3 \<Longrightarrow> rescale 2 (PyInt 0, PyInt 1) d = Inr (Finite (real_of_int d / 3))"
  using rescale_value[of 2 "(PyInt 0, PyInt 1)" d] by (simp add: small_range_ok num_value_def)

lemma rescale_hp_depth:
  "rescale 2 (PyInt 1, PyInt 3) 1 = Inr (Finite (5 / 3))"
  using rescale_value[of 2 "(PyInt 1, PyInt 3)" 1] by (simp add: small_range_ok num_value_def)

lemma np_single: "np_mean [x] = x" "np_std [x] = 0"
  by (simp_all add: np_mean_def np_std_def)

section \<open>Properties of the fitness function\<close>



lemma first_evaluation:
  "evalFunction cv_C 1 1 (Some hp_C) True state0 [0, 0, 1] = Inr ((0, 1, 0), state1)"
  by (simp add: evalFunction_def hp_C_def state0_def state1_def phenotype_def int_of_bin_str_def
      is_bits_def rescale_hp_C eval_value_def cv_C_def np_single)


text \<open>
  C3. With caching enabled, after an evaluation of a chromosome with a feasible feature
  segment has returned \<open>(m, k, d)\<close>, the cache holds \<open>(m, d)\<close> under the feature segment,
  and evaluating the chromosome again returns \<open>(m, count, d)\<close> with the count of the
  feature bits, without a further call of the scorer and without a change of the cache.
\<close>

theorem evalFunction_second_call_cached:
  assumes "evalFunction cvs n_columns max_features hp True st individual = Inr ((m, k, d), st1)"
    and "features = drop (hparam_bits_of hp) individual"
    and "0 < sum_list features" and "sum_list features \<le> int max_features"
  shows "scores_cache st1 features = Some (m, d)
     \<and> (\<exists>st2. evalFunction cvs n_columns max_features hp True st1 individual
                 = Inr ((m, sum_list features, d), st2)
              \<and> cv_calls st2 = cv_calls st1 \<and> scores_cache st2 = scores_cache st1)"
proof -
  have feas: "\<not> (sum_list (drop (hparam_bits_of hp) individual) = 0
            \<or> sum_list (drop (hparam_bits_of hp) individual) > int max_features)"
    using assms(2-4) by simp
  from evalFunction_stores[OF assms(1) feas]
  have s: "scores_cache st1 (drop (hparam_bits_of hp) individual) = Some (m, d)" by simp
  from assms(1) obtain est i where "decode_prefix hp individual (estimator st) = Inr (est, i)"
    by (auto simp: evalFunction_decode split: sum.splits)
  from decode_prefix_est_indep[OF this, of "estimator st1"] obtain e2 i where
    d2: "decode_prefix hp individual (estimator st1) = Inr (e2, i)" by blast
  then have i: "i = hparam_bits_of hp" by (rule decode_prefix_offset)
  from evalFunction_hit[OF d2[unfolded i] feas s, of cvs n_columns] s assms(2)
  show ?thesis by simp
qed

text \<open>C3 at the chromosome \<open>[0, 0, 1]\<close>, first evaluated in the empty state.\<close>

theorem evalFunction_second_call_cached_witness:
  "evalFunction cv_C 1 1 (Some hp_C) True state0 [0, 0, 1] = Inr ((0, 1, 0), state1)
   \<and> scores_cache state1 [1] = Some (0, 0)
   \<and> (\<exists>st2. evalFunction cv_C 1 1 (Some hp_C) True state1 [0, 0, 1] = Inr ((0, 1, 0), st2)
            \<and> cv_calls st2 = cv_calls state1 \<and> scores_cache st2 = scores_cache state1)"
  using evalFunction_second_call_cached[OF first_evaluation, of "[1]"] first_evaluation
  by (simp add: hparam_bits_of_def hp_C_def)



section \<open>Properties of the initializer\<close>

lemma shuffle_down_mset:
  "k < length x \<Longrightarrow> mset (fst (shuffle_down k x g)) = mset x"
proof (induction k arbitrary: x g)
  case 0
  then show ?case by simp
next
  case (Suc k)
  let ?j = "shd g mod (Suc k + 1)"
  have j: "?j < length x" using Suc.prems
  proof -
    have "?j < Suc k + 1" by simp
    with Suc.prems show ?thesis by linarith
  qed
  have "mset (x[Suc k := x ! ?j, ?j := x ! Suc k]) = mset x"
    using mset_swap[OF j Suc.prems] .
  moreover have "k < length (x[Suc k := x ! ?j, ?j := x ! Suc k])" using Suc.prems by simp
  ultimately show ?case using Suc.IH[of "x[Suc k := x ! ?j, ?j := x ! Suc k]" "stl g"]
    by (simp add: Let_def)
qed

lemma shuffle_mset: "mset (fst (shuffle x g)) = mset x"
proof (cases "x = []")
  case True
  then show ?thesis by (simp add: shuffle_def)
next
  case False
  then have "length x - 1 < length x" by simp
  then show ?thesis unfolding shuffle_def by (rule shuffle_down_mset)
qed

lemma count_ones_mset: "mset xs = mset ys \<Longrightarrow> count_ones xs = count_ones ys"
  unfolding count_ones_def by (metis mset_filter size_mset)

lemma is_bits_mset: "mset xs = mset ys \<Longrightarrow> is_bits xs = is_bits ys"
  unfolding is_bits_def list_all_iff by (metis set_mset_mset)

lemma genome_shuffled:
  assumes "shuffle (replicate k 1 @ replicate m 0) g = (bs, g')"
  shows "length bs = k + m \<and> is_bits bs \<and> count_ones bs = k"
proof -
  have m: "mset bs = mset (replicate k (1::int) @ replicate m 0)"
    using shuffle_mset[of "replicate k (1::int) @ replicate m 0" g] assms by simp
  have "length bs = k + m" using mset_eq_length[OF m] by simp
  moreover have "is_bits bs" unfolding is_bits_mset[OF m] by (auto simp: is_bits_def list_all_iff)
  moreover have "count_ones bs = k" unfolding count_ones_mset[OF m] by (simp add: count_ones_def)
  ultimately show ?thesis by simp
qed

lemma is_bits_append: "is_bits (xs @ ys) = (is_bits xs \<and> is_bits ys)"
  by (simp add: is_bits_def)

text \<open>
  C2. For \<open>1 \<le> max_features \<le> n\<close> and every state of the random generator, the
  initializer returns a chromosome of bits whose feature segment has length \<open>n\<close> and
  between 1 and \<open>max_features\<close> set bits; with hyperparameters configured the feature
  segment is preceded by exactly \<open>hparam_bits\<close> bits.
\<close>

theorem createIndividual_feasible:
  assumes "1 \<le> max_features" and "max_features \<le> n"
  shows "\<exists>ind g'. createIndividual n max_features hp hparam_bits g = Inr (ind, g')
           \<and> is_bits ind
           \<and> length ind = (if hp = None then 0 else hparam_bits) + n
           \<and> length (drop (if hp = None then 0 else hparam_bits) ind) = n
           \<and> 1 \<le> count_ones (drop (if hp = None then 0 else hparam_bits) ind)
           \<and> count_ones (drop (if hp = None then 0 else hparam_bits) ind) \<le> max_features"
proof -
  define k where "k = 1 + shd g mod max_features"
  have r: "randint 1 (max_features + 1) g = Inr (k, stl g)"
    using assms(1) by (simp add: randint_def k_def)
  have "shd g mod max_features < max_features" using assms(1) by simp
  then have k: "1 \<le> k" "k \<le> max_features" unfolding k_def by simp_all
  obtain f g1 where f: "shuffle (replicate k (1::int) @ replicate (n - k) 0) (stl g) = (f, g1)"
    by (meson surj_pair)
  from genome_shuffled[OF f] k assms(2)
  have fl: "length f = n" "is_bits f" "count_ones f = k" by simp_all
  show ?thesis
  proof (cases hp)
    case None
    then show ?thesis using r f fl k by (simp add: createIndividual_def)
  next
    case (Some h)
    define m where "m = shd g1 mod (hparam_bits + 1)"
    have r2: "randint 0 (hparam_bits + 1) g1 = Inr (m, stl g1)"
      by (simp add: randint_def m_def)
    have "m < hparam_bits + 1" unfolding m_def by simp
    then have mle: "m \<le> hparam_bits" by simp
    obtain hg g2 where
      hg: "shuffle (replicate m (1::int) @ replicate (hparam_bits - m) 0) (stl g1) = (hg, g2)"
      by (meson surj_pair)
    from genome_shuffled[OF hg] mle have hl: "length hg = hparam_bits" "is_bits hg" by simp_all
    show ?thesis using Some r f fl k r2 hg hl
      by (simp add: createIndividual_def is_bits_append)
  qed
qed

text \<open>C2 for three features, at most two selected, and two hyperparameter bits.\<close>

theorem createIndividual_feasible_witness:
  "(1::nat) \<le> 2 \<and> (2::nat) \<le> 3 \<and>
   (\<exists>ind g'. createIndividual 3 2 (Some hp_C) 2 (sconst 1) = Inr (ind, g')
           \<and> is_bits ind \<and> length ind = 2 + 3 \<and> length (drop 2 ind) = 3
           \<and> 1 \<le> count_ones (drop 2 ind) \<and> count_ones (drop 2 ind) \<le> 2)"
  using createIndividual_feasible[of 2 3 "Some hp_C" 2 "sconst 1"] by simp

section \<open>Properties of the generational loop\<close>

lemma ea_loop_history:
  "ea_loop body limit gens s0 = Inr hist \<Longrightarrow>
     length hist \<le> length gens
   \<and> (\<forall>i<length hist. body (gens ! i) ((s0 # hist) ! i) = Inr (hist ! i))
   \<and> (\<forall>i. Suc i < length hist \<longrightarrow> \<not> stagnated limit (hist ! i))
   \<and> (length hist < length gens \<longrightarrow> hist \<noteq> [] \<and> stagnated limit (last hist))"
proof (induction gens arbitrary: s0 hist)
  case Nil
  then show ?case by simp
next
  case (Cons gen gens)
  from Cons.prems obtain s' where b: "body gen s0 = Inr s'"
    by (auto split: sum.splits)
  show ?case
  proof (cases "stagnated limit s'")
    case True
    with Cons.prems b have "hist = [s']" by simp
    with b True show ?thesis by simp
  next
    case False
    with Cons.prems b obtain rest where r: "ea_loop body limit gens s' = Inr rest"
      and h: "hist = s' # rest"
      by (auto split: sum.splits)
    note IH = Cons.IH[OF r]
    have 1: "length hist \<le> length (gen # gens)" using IH h by simp
    have 2: "\<forall>i<length hist. body ((gen # gens) ! i) ((s0 # hist) ! i) = Inr (hist ! i)"
    proof (intro allI impI)
      fix i assume "i < length hist"
      then show "body ((gen # gens) ! i) ((s0 # hist) ! i) = Inr (hist ! i)"
        using IH b h by (cases i) auto
    qed
    have 3: "\<forall>i. Suc i < length hist \<longrightarrow> \<not> stagnated limit (hist ! i)"
    proof (intro allI impI)
      fix i assume "Suc i < length hist"
      then show "\<not> stagnated limit (hist ! i)"
        using IH False h by (cases i) auto
    qed
    have 4: "length hist < length (gen # gens) \<longrightarrow> hist \<noteq> [] \<and> stagnated limit (last hist)"
      using IH h by auto
    from 1 2 3 4 show ?thesis by blast
  qed
qed

lemma fitness_gt_trans:
  assumes "\<forall>a b c. gt a b \<longrightarrow> gt b c \<longrightarrow> gt a c"
    and "fitness_gt gt x y" and "fitness_gt gt y z"
  shows "fitness_gt gt x z"
  using assms unfolding fitness_gt_def by (auto split: option.splits)

lemma hof_update_nonempty: "items \<noteq> [] \<or> pop \<noteq> [] \<Longrightarrow> hof_update gt items pop \<noteq> []"
  by (induction gt items pop rule: hof_update.induct) auto

lemma hof_update_keeps:
  "\<forall>c\<in>set pop. \<not> (fitness_gt gt (fitness c) (fitness h) \<and> genes c \<noteq> genes h) \<Longrightarrow>
   hof_update gt (h # hs) pop = h # hs"
  by (induction pop) auto

lemma hof_update_improves:
  assumes tr: "\<forall>a b c. gt a b \<longrightarrow> gt b c \<longrightarrow> gt a c"
  shows "hof_update gt (h # hs) pop = h # hs \<or>
     (hd (hof_update gt (h # hs) pop) \<in> set pop
      \<and> fitness_gt gt (fitness (hd (hof_update gt (h # hs) pop))) (fitness h))"
proof (induction pop arbitrary: h hs)
  case Nil
  then show ?case by simp
next
  case (Cons c pop)
  show ?case
  proof (cases "fitness_gt gt (fitness c) (fitness h) \<and> genes c \<noteq> genes h")
    case False
    then have "hof_update gt (h # hs) (c # pop) = hof_update gt (h # hs) pop" by auto
    with Cons.IH[of h hs] show ?thesis by auto
  next
    case True
    then have e: "hof_update gt (h # hs) (c # pop) = hof_update gt [c] pop" by simp
    from Cons.IH[of c "[]"] show ?thesis
    proof
      assume "hof_update gt [c] pop = [c]"
      with e True show ?thesis by simp
    next
      assume a: "hd (hof_update gt [c] pop) \<in> set pop
        \<and> fitness_gt gt (fitness (hd (hof_update gt [c] pop))) (fitness c)"
      then have "fitness_gt gt (fitness (hd (hof_update gt [c] pop))) (fitness h)"
        using fitness_gt_trans[OF tr] True by blast
      with a e show ?thesis by simp
    qed
  qed
qed

lemma ea_generation_step:
  assumes "ea_generation select varAnd evaluate gt hp hof_size gen s = Inr s'"
  shows "halloffame s \<noteq> []"
    and "halloffame s' = hof_update gt (halloffame s) (population s')"
    and "wait s' = (if genes (hd (halloffame s')) = genes (hd (halloffame s)) then wait s + 1 else 0)"
    and "\<exists>evaluated. population s' = evaluated @ halloffame s"
    and "logbook s' = logbook s @ [(gen, snd (last (logbook s')))]"
  using assms unfolding ea_generation_def
  by (auto simp: Let_def split: prod.splits sum.splits list.splits)


lemma eaFunction_unfold:
  assumes "eaFunction select varAnd evaluate gt pop ngen limit hof hp g st = Inr H"
  shows "\<exists>s0 hist hof_size. H = s0 # hist \<and> wait s0 = 0
     \<and> ea_loop (ea_generation select varAnd evaluate gt hp hof_size) limit [1..<ngen + 1] s0
         = Inr hist"
proof -
  from assms obtain evaluated st1 where
    e: "evaluate_invalid evaluate st pop = Inr (evaluated, st1)"
    unfolding eaFunction_def by (cases "evaluate_invalid evaluate st pop") auto
  from assms e obtain items0 where hof: "hof = Some items0"
    unfolding eaFunction_def by (cases hof) auto
  define items where "items = hof_update gt items0 evaluated"
  define hof_size where "hof_size = (if items \<noteq> [] then length items else 0)"
  define s0 :: "'a ea_state" where "s0 = \<lparr>population = evaluated, halloffame = items, wait = 0,
                         logbook = [(0, nevals pop)], rng = g, evals = st1\<rparr>"
  have "(case ea_loop (ea_generation select varAnd evaluate gt hp hof_size) limit [1..<ngen + 1] s0 of
           Inl e \<Rightarrow> Inl e | Inr history \<Rightarrow> Inr (s0 # history)) = Inr H"
    using assms e hof unfolding eaFunction_def items_def hof_size_def s0_def
    by (simp add: Let_def del: upt_Suc)
  then obtain hist where
    "ea_loop (ea_generation select varAnd evaluate gt hp hof_size) limit [1..<ngen + 1] s0 = Inr hist"
    and "H = s0 # hist"
    by (cases "ea_loop (ea_generation select varAnd evaluate gt hp hof_size) limit [1..<ngen + 1] s0") auto
  moreover have "wait s0 = 0" by (simp add: s0_def)
  ultimately show ?thesis by blast
qed

lemma gens_length: "length [1..<ngen + 1] = ngen"
  by (simp del: upt_Suc)

lemma gens_nth: "i < ngen \<Longrightarrow> [1..<ngen + 1] ! i = Suc i"
  by (simp add: nth_upt del: upt_Suc)

lemma ea_loop_length:
  "ea_loop body limit gens s0 = Inr hist \<Longrightarrow> length hist \<le> length gens"
  using ea_loop_history by blast

lemma ea_loop_step:
  "ea_loop body limit gens s0 = Inr hist \<Longrightarrow> i < length hist \<Longrightarrow>
   body (gens ! i) ((s0 # hist) ! i) = Inr (hist ! i)"
  using ea_loop_history by blast

lemma ea_loop_continue:
  "ea_loop body limit gens s0 = Inr hist \<Longrightarrow> Suc i < length hist \<Longrightarrow>
   \<not> stagnated limit (hist ! i)"
  using ea_loop_history by blast

lemma ea_loop_early:
  "ea_loop body limit gens s0 = Inr hist \<Longrightarrow> length hist < length gens \<Longrightarrow>
   hist \<noteq> [] \<and> stagnated limit (last hist)"
  using ea_loop_history by blast

lemma eaFunction_nonempty:
  assumes "eaFunction select varAnd evaluate gt pop ngen limit hof hp g st = Inr H"
  shows "H \<noteq> []" and "length H \<le> ngen + 1" and "wait (H ! 0) = 0"
proof -
  from eaFunction_unfold[OF assms] obtain s0 hist hof_size where H: "H = s0 # hist"
    and w: "wait s0 = 0"
    and l: "ea_loop (ea_generation select varAnd evaluate gt hp hof_size) limit [1..<ngen + 1] s0
         = Inr hist" by blast
  from ea_loop_length[OF l] have "length hist \<le> ngen" unfolding gens_length .
  with H w show "H \<noteq> []" and "length H \<le> ngen + 1" and "wait (H ! 0) = 0" by simp_all
qed

lemma eaFunction_step:
  assumes "eaFunction select varAnd evaluate gt pop ngen limit hof hp g st = Inr H"
    and "Suc i < length H"
  shows "\<exists>hof_size. ea_generation select varAnd evaluate gt hp hof_size (Suc i) (H ! i)
                        = Inr (H ! Suc i)"
proof -
  from eaFunction_unfold[OF assms(1)] obtain s0 hist hof_size where H: "H = s0 # hist"
    and l: "ea_loop (ea_generation select varAnd evaluate gt hp hof_size) limit [1..<ngen + 1] s0
         = Inr hist" by blast
  from assms(2) H have i: "i < length hist" by simp
  from ea_loop_length[OF l] have "length hist \<le> ngen" unfolding gens_length .
  with i have "[1..<ngen + 1] ! i = Suc i" by (intro gens_nth) simp
  with ea_loop_step[OF l i] have
    "ea_generation select varAnd evaluate gt hp hof_size (Suc i) ((s0 # hist) ! i) = Inr (hist ! i)"
    by simp
  then show ?thesis unfolding H by auto
qed

lemma eaFunction_continue:
  assumes "eaFunction select varAnd evaluate gt pop ngen limit hof hp g st = Inr H"
    and "0 < i" and "Suc i < length H"
  shows "\<not> stagnated limit (H ! i)"
proof -
  from eaFunction_unfold[OF assms(1)] obtain s0 hist hof_size where H: "H = s0 # hist"
    and l: "ea_loop (ea_generation select varAnd evaluate gt hp hof_size) limit [1..<ngen + 1] s0
         = Inr hist" by blast
  from assms(2) obtain i' where i': "i = Suc i'" by (cases i) auto
  with assms(3) H have "Suc i' < length hist" by simp
  from ea_loop_continue[OF l this] show ?thesis unfolding H i' by simp
qed

lemma eaFunction_early:
  assumes "eaFunction select varAnd evaluate gt pop ngen limit hof hp g st = Inr H"
    and "length H < ngen + 1"
  shows "stagnated limit (last H)"
proof -
  from eaFunction_unfold[OF assms(1)] obtain s0 hist hof_size where H: "H = s0 # hist"
    and l: "ea_loop (ea_generation select varAnd evaluate gt hp hof_size) limit [1..<ngen + 1] s0
         = Inr hist" by blast
  from assms(2) H have "length hist < length [1..<ngen + 1]" unfolding gens_length by simp
  from ea_loop_early[OF l this] show ?thesis unfolding H by simp
qed

lemma hof_pair:
  assumes tr: "\<forall>a b c. gt a b \<longrightarrow> gt b c \<longrightarrow> gt a c"
    and step: "ea_generation select varAnd evaluate gt hp hof_size gen s = Inr s'"
  shows "halloffame s' = halloffame s
     \<or> (hd (halloffame s') \<in> set (population s')
        \<and> fitness_gt gt (fitness (hd (halloffame s'))) (fitness (hd (halloffame s))))"
proof -
  from ea_generation_step(1)[OF step] obtain h hs where h: "halloffame s = h # hs"
    by (cases "halloffame s") auto
  from hof_update_improves[OF tr, of h hs "population s'"] ea_generation_step(2)[OF step] h
  show ?thesis by simp
qed

lemma weighted_gt_trans: "\<forall>a b c. weighted_gt a b \<longrightarrow> weighted_gt b c \<longrightarrow> weighted_gt a c"
  by (auto simp: weighted_gt_def)

lemma wait_run:
  assumes run: "eaFunction select varAnd evaluate gt pop ngen limit hof hp g st = Inr H"
  shows "i < length H \<Longrightarrow> d \<le> i \<Longrightarrow>
    (\<forall>m. i - d < m \<and> m \<le> i \<longrightarrow>
        genes (hd (halloffame (H ! m))) = genes (hd (halloffame (H ! (m - 1))))) \<Longrightarrow>
    d \<le> wait (H ! i)"
proof (induction d arbitrary: i)
  case 0
  then show ?case by simp
next
  case (Suc d)
  from Suc.prems(2) obtain n where n: "i = Suc n" by (cases i) auto
  from Suc.prems(1) have sn: "Suc n < length H" unfolding n .
  from eaFunction_step[OF run sn] obtain hof_size where
    g: "ea_generation select varAnd evaluate gt hp hof_size (Suc n) (H ! n) = Inr (H ! Suc n)"
    by blast
  have "Suc n - Suc d < Suc n \<and> Suc n \<le> Suc n" by simp
  with Suc.prems(3)[unfolded n] have
    "genes (hd (halloffame (H ! Suc n))) = genes (hd (halloffame (H ! (Suc n - 1))))"
    by blast
  then have same: "genes (hd (halloffame (H ! Suc n))) = genes (hd (halloffame (H ! n)))" by simp
  have w: "wait (H ! Suc n) = wait (H ! n) + 1"
    unfolding ea_generation_step(3)[OF g] using same by simp
  have nl: "n < length H" using sn by simp
  have dn: "d \<le> n" using Suc.prems(2) n by simp
  have rest: "\<forall>m. n - d < m \<and> m \<le> n \<longrightarrow>
        genes (hd (halloffame (H ! m))) = genes (hd (halloffame (H ! (m - 1))))"
  proof (intro allI impI)
    fix m assume m: "n - d < m \<and> m \<le> n"
    then have "i - Suc d < m \<and> m \<le> i" unfolding n by linarith
    with Suc.prems(3) show "genes (hd (halloffame (H ! m))) = genes (hd (halloffame (H ! (m - 1))))"
      by blast
  qed
  from Suc.IH[OF nl dn rest] w show ?case unfolding n by simp
qed

subsection \<open>A run of two generations\<close>

lemma run_eval:
  "evalFunction cv_count 3 3 None False st [1, 0, 0]
     = Inr ((1, 1, 0), st\<lparr>cv_calls := Suc (cv_calls st)\<rparr>)"
  "evalFunction cv_count 3 3 None False st [0, 1, 1]
     = Inr ((2, 2, 0), st\<lparr>cv_calls := Suc (cv_calls st)\<rparr>)"
  by (simp_all add: evalFunction_def cv_count_def np_single)

lemma run_gt:
  "weighted_gt (2, 2, 0) (1, 1, 0)" "\<not> weighted_gt (1, 1, 0) (2, 2, 0)"
  "\<not> weighted_gt (1, 1, 0) (1, 1, 0)" "\<not> weighted_gt (2, 2, 0) (2, 2, 0)"
  by (simp_all add: weighted_gt_def)

lemma run_gen1:
  "ea_generation sel_take var_flip (evalFunction cv_count 3 3 None False) weighted_gt None 1 1 run_s0
     = Inr run_s1"
  by (simp add: ea_generation_def run_s0_def run_s1_def sel_take_def var_flip_def vary_def
      Individual_new_def run_eval run_gt fitness_gt_def nevals_def Let_def)

lemma run_gen2:
  "ea_generation sel_take var_flip (evalFunction cv_count 3 3 None False) weighted_gt None 1 2 run_s1
     = Inr run_s2"
  by (simp add: ea_generation_def run_s1_def run_s2_def sel_take_def var_flip_def vary_def
      Individual_new_def run_eval run_gt fitness_gt_def nevals_def Let_def)

lemma run_stag: "\<not> stagnated (Some 1) run_s1" "stagnated (Some 1) run_s2"
  by (simp_all add: stagnated_def run_s1_def run_s2_def)

lemma run_gens: "[1..<5 + 1] = 1 # 2 # [3..<6]"
  by (simp add: upt_rec)

lemma run_loop:
  "ea_loop (ea_generation sel_take var_flip (evalFunction cv_count 3 3 None False) weighted_gt None 1)
     (Some 1) [1..<5 + 1] run_s0 = Inr [run_s1, run_s2]"
  unfolding run_gens
  by (simp only: ea_loop.simps run_gen1 run_gen2 run_stag sum.case if_True if_False)

lemma run_init:
  "evaluate_invalid (evalFunction cv_count 3 3 None False) state0
     [Individual_new [1, 0, 0], Individual_new [1, 0, 0]]
   = Inr (population run_s0, evals run_s0)"
  by (simp add: Individual_new_def run_eval run_s0_def state0_def)

lemma run_history:
  "eaFunction sel_take var_flip (evalFunction cv_count 3 3 None False) weighted_gt
     [Individual_new [1, 0, 0], Individual_new [1, 0, 0]] 5 (Some 1) (Some []) None () state0
   = Inr [run_s0, run_s1, run_s2]"
proof -
  have h: "hof_update weighted_gt [] (population run_s0) = halloffame run_s0"
    by (simp add: run_s0_def run_gt fitness_gt_def)
  have n: "nevals [Individual_new [1, 0, 0], Individual_new [1, 0, 0]] = 2"
    by (simp add: nevals_def Individual_new_def)
  have s: "\<lparr>population = population run_s0, halloffame = halloffame run_s0, wait = 0,
            logbook = [(0, 2)], rng = (), evals = evals run_s0\<rparr> = run_s0"
    by (simp add: run_s0_def)
  have l: "length (halloffame run_s0) = 1" "halloffame run_s0 \<noteq> []" by (simp_all add: run_s0_def)
  show ?thesis
    unfolding eaFunction_def run_init
    by (simp only: sum.case prod.case option.case Let_def h n s l if_True not_False_eq_True
        run_loop)
qed

subsection \<open>The hall of fame\<close>

text \<open>
  C4. For a transitive fitness ordering, in the history \<open>H\<close> of a run the fitness of the
  hall-of-fame member after generation \<open>j\<close> is equal to or greater than the one after any
  earlier generation \<open>i\<close>; and the hall of fame after generation \<open>i + 1\<close> is the one after
  generation \<open>i\<close> whenever no individual of the new population (the evaluated offspring
  and the previous member) has a greater fitness than the member.
\<close>

theorem halloffame_monotone:
  assumes tr: "\<forall>a b c. gt a b \<longrightarrow> gt b c \<longrightarrow> gt a c"
    and run: "eaFunction select varAnd evaluate gt pop ngen limit hof hp g st = Inr H"
    and ij: "i \<le> j" "j < length H"
  shows "(fitness (hd (halloffame (H ! j))) = fitness (hd (halloffame (H ! i)))
          \<or> fitness_gt gt (fitness (hd (halloffame (H ! j)))) (fitness (hd (halloffame (H ! i)))))
     \<and> (Suc i < length H
          \<and> (\<forall>c\<in>set (population (H ! Suc i)).
                \<not> fitness_gt gt (fitness c) (fitness (hd (halloffame (H ! i)))))
        \<longrightarrow> halloffame (H ! Suc i) = halloffame (H ! i))"
proof -
  have mono: "j < length H \<Longrightarrow>
      fitness (hd (halloffame (H ! j))) = fitness (hd (halloffame (H ! i)))
    \<or> fitness_gt gt (fitness (hd (halloffame (H ! j)))) (fitness (hd (halloffame (H ! i))))"
    using ij(1)
  proof (induction j rule: dec_induct)
    case base
    then show ?case by simp
  next
    case (step n)
    from eaFunction_step[OF run step.prems] obtain hof_size where
      g: "ea_generation select varAnd evaluate gt hp hof_size (Suc n) (H ! n) = Inr (H ! Suc n)"
      by blast
    from step.prems have "n < length H" by simp
    note ih = step.IH[OF this]
    from hof_pair[OF tr g] show ?case
    proof
      assume "halloffame (H ! Suc n) = halloffame (H ! n)"
      with ih show ?thesis by simp
    next
      assume b: "hd (halloffame (H ! Suc n)) \<in> set (population (H ! Suc n))
        \<and> fitness_gt gt (fitness (hd (halloffame (H ! Suc n)))) (fitness (hd (halloffame (H ! n))))"
      from ih show ?thesis
      proof
        assume "fitness (hd (halloffame (H ! n))) = fitness (hd (halloffame (H ! i)))"
        with b show ?thesis by simp
      next
        assume "fitness_gt gt (fitness (hd (halloffame (H ! n)))) (fitness (hd (halloffame (H ! i))))"
        with b fitness_gt_trans[OF tr] show ?thesis by blast
      qed
    qed
  qed
  have keep: "Suc i < length H
          \<and> (\<forall>c\<in>set (population (H ! Suc i)).
                \<not> fitness_gt gt (fitness c) (fitness (hd (halloffame (H ! i)))))
        \<longrightarrow> halloffame (H ! Suc i) = halloffame (H ! i)"
  proof
    assume a: "Suc i < length H
          \<and> (\<forall>c\<in>set (population (H ! Suc i)).
                \<not> fitness_gt gt (fitness c) (fitness (hd (halloffame (H ! i)))))"
    then have "Suc i < length H" by simp
    from eaFunction_step[OF run this] obtain hof_size where
      g: "ea_generation select varAnd evaluate gt hp hof_size (Suc i) (H ! i) = Inr (H ! Suc i)"
      by blast
    from ea_generation_step(1)[OF g] obtain h hs where h: "halloffame (H ! i) = h # hs"
      by (cases "halloffame (H ! i)") auto
    have "hof_update gt (h # hs) (population (H ! Suc i)) = h # hs"
      by (rule hof_update_keeps) (use a h in simp)
    with ea_generation_step(2)[OF g] h show "halloffame (H ! Suc i) = halloffame (H ! i)" by simp
  qed
  from mono[OF ij(2)] keep show ?thesis by blast
qed

text \<open>
  C4 on the run of two generations: the member improves in generation 1 and persists in
  generation 2.
\<close>

theorem halloffame_monotone_witness:
  "eaFunction sel_take var_flip (evalFunction cv_count 3 3 None False) weighted_gt
        [Individual_new [1, 0, 0], Individual_new [1, 0, 0]] 5 (Some 1) (Some []) None () state0
      = Inr [run_s0, run_s1, run_s2]
   \<and> fitness_gt weighted_gt (fitness (hd (halloffame run_s2))) (fitness (hd (halloffame run_s0)))
   \<and> halloffame run_s2 = halloffame run_s1"
proof -
  have ne: "fitness (hd (halloffame run_s2)) \<noteq> fitness (hd (halloffame run_s0))"
    by (simp add: run_s0_def run_s2_def)
  have no: "\<forall>c\<in>set (population run_s2).
         \<not> fitness_gt weighted_gt (fitness c) (fitness (hd (halloffame run_s1)))"
    by (simp add: run_s1_def run_s2_def fitness_gt_def run_gt)
  from halloffame_monotone[OF weighted_gt_trans run_history, of 0 2]
       halloffame_monotone[OF weighted_gt_trans run_history, of 1 2] ne no
  show ?thesis using run_history by simp
qed

subsection \<open>Termination on stagnation\<close>

lemma wait_exact:
  assumes run: "eaFunction select varAnd evaluate gt pop ngen limit hof hp g st = Inr H"
  shows "i < length H \<Longrightarrow> d \<le> wait (H ! i) \<Longrightarrow>
    d \<le> i \<and> (\<forall>m. i - d < m \<and> m \<le> i \<longrightarrow>
        genes (hd (halloffame (H ! m))) = genes (hd (halloffame (H ! (m - 1)))))"
proof (induction i arbitrary: d)
  case 0
  with eaFunction_nonempty(3)[OF run] show ?case by simp
next
  case (Suc n)
  from eaFunction_step[OF run Suc.prems(1)] obtain hof_size where
    g: "ea_generation select varAnd evaluate gt hp hof_size (Suc n) (H ! n) = Inr (H ! Suc n)"
    by blast
  note w = ea_generation_step(3)[OF g]
  show ?case
  proof (cases d)
    case 0
    then show ?thesis by auto
  next
    case (Suc d')
    with Suc.prems(2) have pos: "0 < wait (H ! Suc n)" by simp
    have same: "genes (hd (halloffame (H ! Suc n))) = genes (hd (halloffame (H ! n)))"
    proof (rule ccontr)
      assume "\<not> ?thesis"
      with w have "wait (H ! Suc n) = 0" by simp
      with pos show False by simp
    qed
    with w have "wait (H ! Suc n) = wait (H ! n) + 1" by simp
    with Suc.prems(2) \<open>d = Suc d'\<close> have d': "d' \<le> wait (H ! n)" by simp
    have nl: "n < length H" using Suc.prems(1) by simp
    from Suc.IH[OF nl d'] have dn: "d' \<le> n"
      and rest: "\<forall>m. n - d' < m \<and> m \<le> n \<longrightarrow>
        genes (hd (halloffame (H ! m))) = genes (hd (halloffame (H ! (m - 1))))" by blast+
    have "\<forall>m. Suc n - d < m \<and> m \<le> Suc n \<longrightarrow>
        genes (hd (halloffame (H ! m))) = genes (hd (halloffame (H ! (m - 1))))"
    proof (intro allI impI)
      fix m assume m: "Suc n - d < m \<and> m \<le> Suc n"
      show "genes (hd (halloffame (H ! m))) = genes (hd (halloffame (H ! (m - 1))))"
      proof (cases "m = Suc n")
        case True
        with same show ?thesis by simp
      next
        case False
        with m \<open>d = Suc d'\<close> have "n - d' < m \<and> m \<le> n" by linarith
        with rest show ?thesis by blast
      qed
    qed
    with dn \<open>d = Suc d'\<close> show ?thesis by simp
  qed
qed

lemma run_gen3:
  "ea_generation sel_take var_flip (evalFunction cv_count 3 3 None False) weighted_gt None 1 3 run_s2
     = Inr run_s3"
  by (simp add: ea_generation_def run_s2_def run_s3_def sel_take_def var_flip_def vary_def
      Individual_new_def run_eval run_gt fitness_gt_def nevals_def Let_def)

lemma run_stag2:
  "\<not> stagnated (Some 2) run_s1" "\<not> stagnated (Some 2) run_s2" "stagnated (Some 2) run_s3"
  by (simp_all add: stagnated_def run_s1_def run_s2_def run_s3_def)

lemma run_gens2: "[1..<5 + 1] = 1 # 2 # 3 # [4..<6]"
  by (simp add: upt_rec)

lemma run_loop2:
  "ea_loop (ea_generation sel_take var_flip (evalFunction cv_count 3 3 None False) weighted_gt None 1)
     (Some 2) [1..<5 + 1] run_s0 = Inr [run_s1, run_s2, run_s3]"
  unfolding run_gens2
  by (simp only: ea_loop.simps run_gen1 run_gen2 run_gen3 run_stag2 sum.case if_True if_False)

lemma run_history2:
  "eaFunction sel_take var_flip (evalFunction cv_count 3 3 None False) weighted_gt
     [Individual_new [1, 0, 0], Individual_new [1, 0, 0]] 5 (Some 2) (Some []) None () state0
   = Inr [run_s0, run_s1, run_s2, run_s3]"
proof -
  have h: "hof_update weighted_gt [] (population run_s0) = halloffame run_s0"
    by (simp add: run_s0_def run_gt fitness_gt_def)
  have n: "nevals [Individual_new [1, 0, 0], Individual_new [1, 0, 0]] = 2"
    by (simp add: nevals_def Individual_new_def)
  have s: "\<lparr>population = population run_s0, halloffame = halloffame run_s0, wait = 0,
            logbook = [(0, 2)], rng = (), evals = evals run_s0\<rparr> = run_s0"
    by (simp add: run_s0_def)
  have l: "length (halloffame run_s0) = 1" "halloffame run_s0 \<noteq> []" by (simp_all add: run_s0_def)
  show ?thesis
    unfolding eaFunction_def run_init
    by (simp only: sum.case prod.case option.case Let_def h n s l if_True not_False_eq_True
        run_loop2)
qed

text \<open>
  C5. A run executes at most \<open>ngen\<close> generations (\<open>length H - 1\<close> of them); without a
  limit it executes exactly \<open>ngen\<close>. With the limit \<open>k > 0\<close>: a generation \<open>i\<close> after
  which the bits of the hall-of-fame member have been the same for \<open>k\<close> consecutive
  generations is the last one executed; and a run that ends before the budget ends there
  for that reason only, its last \<open>k\<close> generations having left the member's bits
  unchanged. With a limit \<open>k \<le> 0\<close> at most one generation is executed.
\<close>

theorem stagnation_terminates:
  assumes run: "eaFunction select varAnd evaluate gt pop ngen limit hof hp g st = Inr H"
  shows "length H - 1 \<le> ngen
     \<and> (limit = None \<longrightarrow> length H - 1 = ngen)
     \<and> (\<forall>k i. limit = Some k \<and> 0 < k \<and> nat k \<le> i \<and> i < length H
              \<and> (\<forall>m. i - nat k < m \<and> m \<le> i \<longrightarrow>
                    genes (hd (halloffame (H ! m))) = genes (hd (halloffame (H ! (m - 1)))))
            \<longrightarrow> i = length H - 1)
     \<and> (\<forall>k. limit = Some k \<and> 0 < k \<and> length H - 1 < ngen
            \<longrightarrow> nat k \<le> length H - 1
              \<and> (\<forall>m. length H - 1 - nat k < m \<and> m \<le> length H - 1 \<longrightarrow>
                    genes (hd (halloffame (H ! m))) = genes (hd (halloffame (H ! (m - 1))))))
     \<and> (\<forall>k. limit = Some k \<and> k \<le> 0 \<longrightarrow> length H - 1 \<le> 1)"
proof -
  note ne = eaFunction_nonempty[OF run]
  have 1: "length H - 1 \<le> ngen" using ne(2) by linarith
  have 2: "limit = None \<longrightarrow> length H - 1 = ngen"
  proof
    assume "limit = None"
    then have "\<not> stagnated limit (last H)" by (simp add: stagnated_def)
    with eaFunction_early[OF run] have "\<not> length H < ngen + 1" by blast
    with ne(2) show "length H - 1 = ngen" by linarith
  qed
  have 3: "\<forall>k i. limit = Some k \<and> 0 < k \<and> nat k \<le> i \<and> i < length H
              \<and> (\<forall>m. i - nat k < m \<and> m \<le> i \<longrightarrow>
                    genes (hd (halloffame (H ! m))) = genes (hd (halloffame (H ! (m - 1)))))
            \<longrightarrow> i = length H - 1"
  proof (intro allI impI)
    fix k i
    assume a: "limit = Some k \<and> 0 < k \<and> nat k \<le> i \<and> i < length H
              \<and> (\<forall>m. i - nat k < m \<and> m \<le> i \<longrightarrow>
                    genes (hd (halloffame (H ! m))) = genes (hd (halloffame (H ! (m - 1)))))"
    then have i: "i < length H" and ki: "nat k \<le> i" and k: "0 < k" and lim: "limit = Some k"
      and same: "\<forall>m. i - nat k < m \<and> m \<le> i \<longrightarrow>
                    genes (hd (halloffame (H ! m))) = genes (hd (halloffame (H ! (m - 1))))"
      by simp_all
    from wait_run[OF run i ki same] have "nat k \<le> wait (H ! i)" .
    with lim have st: "stagnated limit (H ! i)" by (simp add: stagnated_def)
    have "0 < i" using k ki by linarith
    from eaFunction_continue[OF run this] st have "\<not> Suc i < length H" by blast
    with i show "i = length H - 1" by linarith
  qed
  have 4: "\<forall>k. limit = Some k \<and> 0 < k \<and> length H - 1 < ngen
            \<longrightarrow> nat k \<le> length H - 1
              \<and> (\<forall>m. length H - 1 - nat k < m \<and> m \<le> length H - 1 \<longrightarrow>
                    genes (hd (halloffame (H ! m))) = genes (hd (halloffame (H ! (m - 1)))))"
  proof (intro allI impI)
    fix k
    assume a: "limit = Some k \<and> 0 < k \<and> length H - 1 < ngen"
    then have "length H < ngen + 1" using ne(1) by (cases H) auto
    from eaFunction_early[OF run this] a have "k \<le> int (wait (last H))"
      by (simp add: stagnated_def)
    then have w: "nat k \<le> wait (H ! (length H - 1))" using ne(1) by (simp add: last_conv_nth)
    have l: "length H - 1 < length H" using ne(1) by (cases H) auto
    from wait_exact[OF run l w]
    show "nat k \<le> length H - 1
              \<and> (\<forall>m. length H - 1 - nat k < m \<and> m \<le> length H - 1 \<longrightarrow>
                    genes (hd (halloffame (H ! m))) = genes (hd (halloffame (H ! (m - 1)))))" .
  qed
  have 5: "\<forall>k. limit = Some k \<and> k \<le> 0 \<longrightarrow> length H - 1 \<le> 1"
  proof (intro allI impI)
    fix k
    assume a: "limit = Some k \<and> k \<le> 0"
    show "length H - 1 \<le> 1"
    proof (rule ccontr)
      assume "\<not> length H - 1 \<le> 1"
      then have "Suc 1 < length H" by simp
      from eaFunction_continue[OF run _ this] have "\<not> stagnated limit (H ! 1)" by simp
      with a show False by (simp add: stagnated_def)
    qed
  qed
  from 1 2 3 4 5 show ?thesis by blast
qed

text \<open>
  C5 on a run with the limit 2 and a budget of 5: the member changes in generation 1 and
  is unchanged in generations 2 and 3; the run continues after generation 2 and ends
  with generation 3.
\<close>

theorem stagnation_terminates_witness:
  "eaFunction sel_take var_flip (evalFunction cv_count 3 3 None False) weighted_gt
        [Individual_new [1, 0, 0], Individual_new [1, 0, 0]] 5 (Some 2) (Some []) None () state0
      = Inr [run_s0, run_s1, run_s2, run_s3]
   \<and> genes (hd (halloffame run_s1)) \<noteq> genes (hd (halloffame run_s0))
   \<and> genes (hd (halloffame run_s2)) = genes (hd (halloffame run_s1))
   \<and> genes (hd (halloffame run_s3)) = genes (hd (halloffame run_s2))
   \<and> length [run_s0, run_s1, run_s2, run_s3] - 1 \<le> 5
   \<and> 3 = length [run_s0, run_s1, run_s2, run_s3] - 1
   \<and> nat 2 \<le> length [run_s0, run_s1, run_s2, run_s3] - 1"
proof -
  have c: "genes (hd (halloffame run_s1)) \<noteq> genes (hd (halloffame run_s0))"
    by (simp add: run_s0_def run_s1_def)
  have s2: "genes (hd (halloffame run_s2)) = genes (hd (halloffame run_s1))"
    and s3: "genes (hd (halloffame run_s3)) = genes (hd (halloffame run_s2))"
    by (simp_all add: run_s1_def run_s2_def run_s3_def)
  have "\<forall>m. 3 - nat 2 < m \<and> m \<le> 3 \<longrightarrow>
      genes (hd (halloffame ([run_s0, run_s1, run_s2, run_s3] ! m)))
        = genes (hd (halloffame ([run_s0, run_s1, run_s2, run_s3] ! (m - 1))))"
  proof (intro allI impI)
    fix m :: nat assume "3 - nat 2 < m \<and> m \<le> 3"
    then have "m = 2 \<or> m = 3" by auto
    then show "genes (hd (halloffame ([run_s0, run_s1, run_s2, run_s3] ! m)))
        = genes (hd (halloffame ([run_s0, run_s1, run_s2, run_s3] ! (m - 1))))"
      using s2 s3 by (auto simp: numeral_3_eq_3 numeral_2_eq_2)
  qed
  with stagnation_terminates[OF run_history2] c s2 s3 run_history2 show ?thesis by simp
qed

section \<open>Properties of the segment-wise variation\<close>

lemma concat_drop_uniform:
  "k \<le> length xs \<Longrightarrow> \<forall>j<k. length (xs ! j) = w \<Longrightarrow> drop (k * w) (concat xs) = concat (drop k xs)"
proof (induction k arbitrary: xs)
  case 0
  then show ?case by simp
next
  case (Suc k)
  then obtain x xs' where xs: "xs = x # xs'" by (cases xs) auto
  from Suc.prems(2) xs have lx: "length x = w" by auto
  have "\<forall>j<k. length (xs' ! j) = w"
  proof (intro allI impI)
    fix j assume "j < k"
    then have "Suc j < Suc k" by simp
    with Suc.prems(2) have "length (xs ! Suc j) = w" by blast
    then show "length (xs' ! j) = w" using xs by simp
  qed
  moreover have "k \<le> length xs'" using Suc.prems(1) xs by simp
  ultimately have "drop (k * w) (concat xs') = concat (drop k xs')" by (rule Suc.IH[rotated])
  then show ?case using xs lx by simp
qed

lemma concat_length_uniform:
  "k \<le> length xs \<Longrightarrow> \<forall>j<k. length (xs ! j) = w \<Longrightarrow>
   length (concat xs) = k * w + length (concat (drop k xs))"
proof (induction k arbitrary: xs)
  case 0
  then show ?case by simp
next
  case (Suc k)
  then obtain x xs' where xs: "xs = x # xs'" by (cases xs) auto
  from Suc.prems(2) xs have lx: "length x = w" by auto
  have "\<forall>j<k. length (xs' ! j) = w"
  proof (intro allI impI)
    fix j assume "j < k"
    then have "Suc j < Suc k" by simp
    with Suc.prems(2) have "length (xs ! Suc j) = w" by blast
    then show "length (xs' ! j) = w" using xs by simp
  qed
  moreover have "k \<le> length xs'" using Suc.prems(1) xs by simp
  ultimately have "length (concat xs') = k * w + length (concat (drop k xs'))"
    by (rule Suc.IH[rotated])
  then show ?case using xs lx by simp
qed

lemma concat_take_uniform:
  assumes "j < length xs" and "\<forall>j'\<le>j. length (xs ! j') = w"
  shows "take w (drop (j * w) (concat xs)) = xs ! j"
proof -
  have "drop (j * w) (concat xs) = concat (drop j xs)"
    by (rule concat_drop_uniform) (use assms in auto)
  also have "drop j xs = xs ! j # drop (Suc j) xs"
    using assms(1) by (simp add: Cons_nth_drop_Suc)
  finally show ?thesis using assms(2) by simp
qed

lemma zip_star_uniform:
  assumes "ls \<noteq> []" and "\<forall>l\<in>set ls. length l = n"
  shows "zip_star ls = map (\<lambda>k. map (\<lambda>l. l ! k) ls) [0..<n]"
proof -
  have "set (map length ls) = {n}" using assms by (cases ls) auto
  then have "Min (set (map length ls)) = n" by simp
  with assms(1) show ?thesis by (simp add: zip_star_def)
qed

lemma vary_segments_shape:
  assumes "keeps_shape varAnd"
  shows "vary_segments varAnd w k i offspring g = (segs, g') \<Longrightarrow>
     length segs = Suc k
   \<and> (\<forall>j\<le>k. length (segs ! j) = length offspring
        \<and> (\<forall>m<length offspring. length (genes (segs ! j ! m)) =
              (if j < k then length (take w (drop (i + j * w) (genes (offspring ! m))))
               else length (drop (i + k * w) (genes (offspring ! m))))))"
proof (induction k arbitrary: i segs g g')
  case 0
  let ?f = "map (\<lambda>ind. Individual_new (drop i (genes ind))) offspring"
  from 0 have segs: "segs = [fst (varAnd ?f g)]"
    by (auto simp: Let_def split: prod.splits)
  from assms[unfolded keeps_shape_def, rule_format, of ?f g]
  have "length (fst (varAnd ?f g)) = length offspring"
    and "\<forall>m<length offspring. length (genes (fst (varAnd ?f g) ! m)) = length (genes (?f ! m))"
    by simp_all
  then show ?case unfolding segs by (simp add: Individual_new_def)
next
  case (Suc k)
  let ?f = "map (\<lambda>ind. Individual_new (take w (drop i (genes ind)))) offspring"
  obtain v g1 where v: "varAnd ?f g = (v, g1)" by (cases "varAnd ?f g")
  obtain rest g2 where r: "vary_segments varAnd w k (i + w) offspring g1 = (rest, g2)"
    by (cases "vary_segments varAnd w k (i + w) offspring g1")
  from Suc.prems v r have segs: "segs = v # rest" by (simp add: Let_def)
  note IH = Suc.IH[OF r]
  from assms[unfolded keeps_shape_def, rule_format, of ?f g] v
  have lv: "length v = length offspring"
    and gv: "\<forall>m<length offspring. length (genes (v ! m)) = length (genes (?f ! m))"
    by simp_all
  have 1: "length segs = Suc (Suc k)" using IH segs by simp
  have 2: "\<forall>j\<le>Suc k. length (segs ! j) = length offspring
        \<and> (\<forall>m<length offspring. length (genes (segs ! j ! m)) =
              (if j < Suc k then length (take w (drop (i + j * w) (genes (offspring ! m))))
               else length (drop (i + Suc k * w) (genes (offspring ! m)))))"
  proof (intro allI impI)
    fix j assume j: "j \<le> Suc k"
    show "length (segs ! j) = length offspring
        \<and> (\<forall>m<length offspring. length (genes (segs ! j ! m)) =
              (if j < Suc k then length (take w (drop (i + j * w) (genes (offspring ! m))))
               else length (drop (i + Suc k * w) (genes (offspring ! m)))))"
    proof (cases j)
      case 0
      then show ?thesis using segs lv gv by (simp add: Individual_new_def)
    next
      case (Suc j')
      with j have "j' \<le> k" by simp
      with IH have a: "length (rest ! j') = length offspring"
        and b: "\<forall>m<length offspring. length (genes (rest ! j' ! m)) =
              (if j' < k then length (take w (drop (i + w + j' * w) (genes (offspring ! m))))
               else length (drop (i + w + k * w) (genes (offspring ! m))))"
        by blast+
      show ?thesis unfolding Suc segs using a b by (simp add: algebra_simps)
    qed
  qed
  from 1 2 show ?case by blast
qed

lemma vary_segments_trace:
  "vary_segments varAnd w k i offspring g = (segs, g') \<Longrightarrow>
   \<exists>gs. length gs = k + 2 \<and> gs ! 0 = g \<and> gs ! (k + 1) = g'
     \<and> (\<forall>j\<le>k. varAnd (map (\<lambda>ind. Individual_new
                          (if j < k then take w (drop (i + j * w) (genes ind))
                           else drop (i + k * w) (genes ind))) offspring) (gs ! j)
                 = (segs ! j, gs ! Suc j))"
proof (induction k arbitrary: i segs g g')
  case 0
  let ?f = "map (\<lambda>ind. Individual_new (drop i (genes ind))) offspring"
  obtain v g1 where v: "varAnd ?f g = (v, g1)" by (cases "varAnd ?f g")
  with 0 have s: "segs = [v]" "g' = g1" by (simp_all add: Let_def)
  have "length [g, g1] = 0 + 2 \<and> [g, g1] ! 0 = g \<and> [g, g1] ! (0 + 1) = g'
     \<and> (\<forall>j\<le>0. varAnd (map (\<lambda>ind. Individual_new
                          (if j < 0 then take w (drop (i + j * w) (genes ind))
                           else drop (i + 0 * w) (genes ind))) offspring) ([g, g1] ! j)
                 = (segs ! j, [g, g1] ! Suc j))"
    using v s by simp
  then show ?case by blast
next
  case (Suc k)
  let ?f = "map (\<lambda>ind. Individual_new (take w (drop i (genes ind)))) offspring"
  obtain v g1 where v: "varAnd ?f g = (v, g1)" by (cases "varAnd ?f g")
  obtain rest g2 where r: "vary_segments varAnd w k (i + w) offspring g1 = (rest, g2)"
    by (cases "vary_segments varAnd w k (i + w) offspring g1")
  from Suc.prems v r have s: "segs = v # rest" "g' = g2" by (simp_all add: Let_def)
  from Suc.IH[OF r] obtain gs where gs: "length gs = k + 2" "gs ! 0 = g1" "gs ! (k + 1) = g2"
    and each: "\<forall>j\<le>k. varAnd (map (\<lambda>ind. Individual_new
                          (if j < k then take w (drop (i + w + j * w) (genes ind))
                           else drop (i + w + k * w) (genes ind))) offspring) (gs ! j)
                 = (rest ! j, gs ! Suc j)" by blast
  have all: "\<forall>j\<le>Suc k. varAnd (map (\<lambda>ind. Individual_new
                          (if j < Suc k then take w (drop (i + j * w) (genes ind))
                           else drop (i + Suc k * w) (genes ind))) offspring) ((g # gs) ! j)
                 = (segs ! j, (g # gs) ! Suc j)"
  proof (intro allI impI)
    fix j assume j: "j \<le> Suc k"
    show "varAnd (map (\<lambda>ind. Individual_new
                          (if j < Suc k then take w (drop (i + j * w) (genes ind))
                           else drop (i + Suc k * w) (genes ind))) offspring) ((g # gs) ! j)
                 = (segs ! j, (g # gs) ! Suc j)"
    proof (cases j)
      case 0
      then show ?thesis using v s gs by simp
    next
      case (Suc j')
      with j have "j' \<le> k" by simp
      with each have "varAnd (map (\<lambda>ind. Individual_new
                          (if j' < k then take w (drop (i + w + j' * w) (genes ind))
                           else drop (i + w + k * w) (genes ind))) offspring) (gs ! j')
                 = (rest ! j', gs ! Suc j')" by blast
      moreover have e: "i + Suc j' * w = i + w + j' * w" "i + Suc k * w = i + w + k * w" by simp_all
      ultimately show ?thesis unfolding Suc s e by simp
    qed
  qed
  have "length (g # gs) = Suc k + 2 \<and> (g # gs) ! 0 = g \<and> (g # gs) ! (Suc k + 1) = g'"
    using gs s by simp
  with all show ?case by blast
qed

lemma var_flip_shape: "keeps_shape var_flip"
  by (simp add: keeps_shape_def var_flip_def Individual_new_def)

lemma vary_flip:
  "vary var_flip (Some hp_two) [Individual_new [1, 1, 0, 0, 1], Individual_new [0, 1, 1, 0, 0]] ()
     = ([Individual_new [0, 0, 1, 1, 0], Individual_new [1, 0, 0, 1, 1]], ())"
  by (simp add: vary_def hp_two_def var_flip_def Individual_new_def zip_star_def Let_def)

text \<open>
  C6. With hyperparameters configured, the variation of the offspring applies the variation
  operator once to each segment, in the order of the chromosome and threading the state of
  the random generator from one call to the next: the \<open>j\<close>-th call is given, for every
  offspring, the \<open>j\<close>-th block of \<open>bitwidth\<close> bits of its chromosome, and the last call the bits
  after the last hyperparameter. With an operator that keeps the number and the lengths of
  the individuals and offspring of length \<open>hparam_bits + n\<close>, the variation returns as many
  offspring, each of length \<open>hparam_bits + n\<close> and each the concatenation, in the original
  order, of its varied segments: read at the original boundaries, the \<open>j\<close>-th block of
  \<open>bitwidth\<close> bits is the result of varying the \<open>j\<close>-th original block, and the bits after the
  last hyperparameter are the result of varying the original feature bits.
\<close>

theorem vary_preserves_segments:
  assumes shape: "keeps_shape varAnd"
    and len: "\<forall>ind\<in>set offspring. length (genes ind) = length (names h) * bitwidth h + n"
    and v: "vary varAnd (Some h) offspring g = (offspring', g')"
  shows "length offspring' = length offspring
     \<and> (\<exists>segments gs.
           vary_segments varAnd (bitwidth h) (length (names h)) 0 offspring g = (segments, g')
         \<and> length segments = length (names h) + 1
         \<and> length gs = length (names h) + 2 \<and> gs ! 0 = g \<and> gs ! (length (names h) + 1) = g'
         \<and> (\<forall>j\<le>length (names h).
               varAnd (map (\<lambda>ind. Individual_new (segment_of h j (genes ind))) offspring) (gs ! j)
                 = (segments ! j, gs ! Suc j))
         \<and> (\<forall>m<length offspring.
               length (genes (offspring' ! m)) = length (names h) * bitwidth h + n
             \<and> genes (offspring' ! m) = concat (map (\<lambda>s. genes (s ! m)) segments)
             \<and> (\<forall>j\<le>length (names h).
                   segment_of h j (genes (offspring' ! m)) = genes (segments ! j ! m))))"
proof -
  let ?w = "bitwidth h" and ?k = "length (names h)"
  obtain segments g1 where
    s: "vary_segments varAnd ?w ?k 0 offspring g = (segments, g1)"
    by (cases "vary_segments varAnd ?w ?k 0 offspring g")
  from v s have g1: "g1 = g'" by (simp add: vary_def)
  note sh = vary_segments_shape[OF shape s]
  from sh have ls: "length segments = Suc ?k" by blast
  from vary_segments_trace[OF s] obtain gs where
    gs: "length gs = ?k + 2" "gs ! 0 = g" "gs ! (?k + 1) = g1"
    and tr: "\<forall>j\<le>?k. varAnd (map (\<lambda>ind. Individual_new
                          (if j < ?k then take ?w (drop (0 + j * ?w) (genes ind))
                           else drop (0 + ?k * ?w) (genes ind))) offspring) (gs ! j)
                 = (segments ! j, gs ! Suc j)" by blast
  have calls: "\<forall>j\<le>?k. varAnd (map (\<lambda>ind. Individual_new (segment_of h j (genes ind))) offspring)
                  (gs ! j) = (segments ! j, gs ! Suc j)"
  proof (intro allI impI)
    fix j assume j: "j \<le> ?k"
    have eq: "(\<lambda>ind. Individual_new (segment_of h j (genes ind)))
        = (\<lambda>ind. Individual_new (if j < ?k then take ?w (drop (0 + j * ?w) (genes ind))
                           else drop (0 + ?k * ?w) (genes ind)))"
      by (simp add: segment_of_def fun_eq_iff)
    from tr j have "varAnd (map (\<lambda>ind. Individual_new
                          (if j < ?k then take ?w (drop (0 + j * ?w) (genes ind))
                           else drop (0 + ?k * ?w) (genes ind))) offspring) (gs ! j)
                 = (segments ! j, gs ! Suc j)" by blast
    then show "varAnd (map (\<lambda>ind. Individual_new (segment_of h j (genes ind))) offspring)
                  (gs ! j) = (segments ! j, gs ! Suc j)" unfolding eq .
  qed
  have lseg: "\<forall>l\<in>set segments. length l = length offspring"
  proof
    fix l assume "l \<in> set segments"
    then obtain j where "j < length segments" "l = segments ! j" by (auto simp: in_set_conv_nth)
    with sh ls show "length l = length offspring" by auto
  qed
  have ne: "segments \<noteq> []" using ls by auto
  have o': "offspring' = map (\<lambda>ind. Individual_new (concat (map genes ind)))
              (map (\<lambda>m. map (\<lambda>l. l ! m) segments) [0..<length offspring])"
    using v s zip_star_uniform[OF ne lseg] by (simp add: vary_def)
  have lo: "length offspring' = length offspring" unfolding o' by simp
  have per: "\<forall>m<length offspring.
               length (genes (offspring' ! m)) = ?k * ?w + n
             \<and> genes (offspring' ! m) = concat (map (\<lambda>s. genes (s ! m)) segments)
             \<and> (\<forall>j\<le>?k. segment_of h j (genes (offspring' ! m)) = genes (segments ! j ! m))"
  proof (intro allI impI)
    fix m assume m: "m < length offspring"
    let ?parts = "map (\<lambda>s. genes (s ! m)) segments"
    have g: "genes (offspring' ! m) = concat ?parts"
      unfolding o' using m by (simp add: Individual_new_def comp_def)
    have lm: "length (genes (offspring ! m)) = ?k * ?w + n" using len m by simp
    have hseg: "\<forall>j<?k. length (?parts ! j) = ?w"
    proof (intro allI impI)
      fix j assume j: "j < ?k"
      then have "j \<le> ?k" by simp
      with sh m j have "length (genes (segments ! j ! m))
          = length (take ?w (drop (0 + j * ?w) (genes (offspring ! m))))" by auto
      moreover have "j * ?w + ?w \<le> ?k * ?w"
        using j by (metis Suc_leI add.commute mult_Suc mult_le_mono1)
      ultimately have "length (genes (segments ! j ! m)) = ?w" using lm by simp
      then show "length (?parts ! j) = ?w" using j ls by simp
    qed
    have fseg: "length (?parts ! ?k) = n"
    proof -
      from sh m have "length (genes (segments ! ?k ! m))
          = length (drop (0 + ?k * ?w) (genes (offspring ! m)))" by auto
      then show ?thesis using lm ls by simp
    qed
    have lp: "length ?parts = Suc ?k" using ls by simp
    have d: "drop (?k * ?w) (concat ?parts) = concat (drop ?k ?parts)"
      by (rule concat_drop_uniform) (use lp hseg in auto)
    have dk: "drop ?k ?parts = [?parts ! ?k]"
      using lp by (metis Cons_nth_drop_Suc drop_all lessI order_refl)
    have last: "drop (?k * ?w) (concat ?parts) = genes (segments ! ?k ! m)"
      unfolding d dk using ls by simp
    have each: "\<forall>j<?k. take ?w (drop (j * ?w) (concat ?parts)) = genes (segments ! j ! m)"
    proof (intro allI impI)
      fix j assume j: "j < ?k"
      have "take ?w (drop (j * ?w) (concat ?parts)) = ?parts ! j"
        by (rule concat_take_uniform) (use j lp hseg in auto)
      then show "take ?w (drop (j * ?w) (concat ?parts)) = genes (segments ! j ! m)"
        using j ls by simp
    qed
    have bounds: "\<forall>j\<le>?k. segment_of h j (genes (offspring' ! m)) = genes (segments ! j ! m)"
    proof (intro allI impI)
      fix j assume j: "j \<le> ?k"
      show "segment_of h j (genes (offspring' ! m)) = genes (segments ! j ! m)"
      proof (cases "j < ?k")
        case True
        with each show ?thesis unfolding g by (simp add: segment_of_def)
      next
        case False
        with j have "j = ?k" by simp
        with last show ?thesis unfolding g by (simp add: segment_of_def)
      qed
    qed
    have "length (concat ?parts) = ?k * ?w + length (concat (drop ?k ?parts))"
      by (rule concat_length_uniform) (use lp hseg in auto)
    then have "length (concat ?parts) = ?k * ?w + n"
      unfolding dk using fseg by simp
    with g bounds show "length (genes (offspring' ! m)) = ?k * ?w + n
             \<and> genes (offspring' ! m) = concat (map (\<lambda>s. genes (s ! m)) segments)
             \<and> (\<forall>j\<le>?k. segment_of h j (genes (offspring' ! m)) = genes (segments ! j ! m))"
      by simp
  qed
  have s': "vary_segments varAnd ?w ?k 0 offspring g = (segments, g')" using s g1 by simp
  have ls': "length segments = ?k + 1" using ls by simp
  have gs': "gs ! (?k + 1) = g'" using gs g1 by simp
  have "vary_segments varAnd ?w ?k 0 offspring g = (segments, g')
         \<and> length segments = ?k + 1
         \<and> length gs = ?k + 2 \<and> gs ! 0 = g \<and> gs ! (?k + 1) = g'
         \<and> (\<forall>j\<le>?k. varAnd (map (\<lambda>ind. Individual_new (segment_of h j (genes ind))) offspring)
                  (gs ! j) = (segments ! j, gs ! Suc j))
         \<and> (\<forall>m<length offspring.
               length (genes (offspring' ! m)) = ?k * ?w + n
             \<and> genes (offspring' ! m) = concat (map (\<lambda>s. genes (s ! m)) segments)
             \<and> (\<forall>j\<le>?k. segment_of h j (genes (offspring' ! m)) = genes (segments ! j ! m)))"
    by (intro conjI) (rule s' ls' gs(1) gs(2) gs' calls per)+
  then have "\<exists>segments gs.
           vary_segments varAnd ?w ?k 0 offspring g = (segments, g')
         \<and> length segments = ?k + 1
         \<and> length gs = ?k + 2 \<and> gs ! 0 = g \<and> gs ! (?k + 1) = g'
         \<and> (\<forall>j\<le>?k. varAnd (map (\<lambda>ind. Individual_new (segment_of h j (genes ind))) offspring)
                  (gs ! j) = (segments ! j, gs ! Suc j))
         \<and> (\<forall>m<length offspring.
               length (genes (offspring' ! m)) = ?k * ?w + n
             \<and> genes (offspring' ! m) = concat (map (\<lambda>s. genes (s ! m)) segments)
             \<and> (\<forall>j\<le>?k. segment_of h j (genes (offspring' ! m)) = genes (segments ! j ! m)))"
    by blast
  with lo show ?thesis by simp
qed

text \<open>
  C6 for two hyperparameters of two bits, one feature, two offspring and the flip of every
  bit: each block of the result is the flip of the block at the same place.
\<close>

theorem vary_preserves_segments_witness:
  "vary var_flip (Some hp_two) [Individual_new [1, 1, 0, 0, 1], Individual_new [0, 1, 1, 0, 0]] ()
     = ([Individual_new [0, 0, 1, 1, 0], Individual_new [1, 0, 0, 1, 1]], ())
   \<and> length [Individual_new [0, 0, 1, 1, 0], Individual_new [1, 0, 0, 1, 1]]
       = length [Individual_new [1, 1, 0, 0, 1], Individual_new [0, 1, 1, 0, 0]]
   \<and> segment_of hp_two 0 [1, 1, 0, 0, 1] = [1, 1]
   \<and> segment_of hp_two 1 [1, 1, 0, 0, 1] = [0, 0]
   \<and> segment_of hp_two 2 [1, 1, 0, 0, 1] = [1]
   \<and> segment_of hp_two 0 (genes (Individual_new [0, 0, 1, 1, 0])) = [0, 0]
   \<and> segment_of hp_two 1 (genes (Individual_new [0, 0, 1, 1, 0])) = [1, 1]
   \<and> segment_of hp_two 2 (genes (Individual_new [0, 0, 1, 1, 0])) = [0]"
proof -
  have len: "\<forall>ind\<in>set [Individual_new [1, 1, 0, 0, 1], Individual_new [0, 1, 1, 0, 0]].
      length (genes ind) = length (names hp_two) * bitwidth hp_two + 1"
    by (simp add: Individual_new_def hp_two_def)
  have segs: "segment_of hp_two 0 [1, 1, 0, 0, 1] = [1, 1]"
    "segment_of hp_two 1 [1, 1, 0, 0, 1] = [0, 0]"
    "segment_of hp_two 2 [1, 1, 0, 0, 1] = [1]"
    "segment_of hp_two 0 (genes (Individual_new [0, 0, 1, 1, 0])) = [0, 0]"
    "segment_of hp_two 1 (genes (Individual_new [0, 0, 1, 1, 0])) = [1, 1]"
    "segment_of hp_two 2 (genes (Individual_new [0, 0, 1, 1, 0])) = [0]"
    by (simp_all add: segment_of_def hp_two_def Individual_new_def)
  from vary_preserves_segments[OF var_flip_shape len vary_flip] vary_flip segs
  show ?thesis by simp
qed

section \<open>Properties of \<open>_fit\<close>: the estimator and the cache across evaluations\<close>




















subsection \<open>Concrete runs of \<open>fit\<close>\<close>




















subsection \<open>The final decode\<close>

text \<open>
  In the evaluation the value set for \<open>max_depth\<close> is the rescaled value rounded to a
  nearest integer.
\<close>

lemma py_round_nearest: "\<bar>x - of_int (py_round x)\<bar> \<le> 1 / 2"
proof -
  have "of_int \<lfloor>x\<rfloor> \<le> x" "x < of_int \<lfloor>x\<rfloor> + 1" by linarith+
  then show ?thesis by (auto simp: py_round_def Let_def)
qed

lemma set_max_depth_rounded:
  "phenotype h individual i j = Inr (Finite p) \<Longrightarrow>
   set_hparams h individual [''max_depth''] j i est
     = Inr (est(''max_depth'' \<mapsto> PInt (py_round p)), i + bitwidth h)"
  by (simp add: eval_value_def)

text \<open>
  C8. For the integral hyperparameter \<open>max_depth\<close> with range \<open>[1, 3]\<close> on two bits and
  the bits \<open>01\<close>, the evaluation sets the rounded value 2 on the estimator, and the final
  decode of \<open>_fit\<close> reports the unrounded \<open>5/3\<close>.
\<close>

theorem final_decode_not_rounded:
  "set_hparams hp_depth [0, 1, 1] (names hp_depth) 0 0 Map.empty
     = Inr ([''max_depth'' \<mapsto> PInt 2], 2)
   \<and> decode_best hp_depth (take 2 [0, 1, 1]) (names hp_depth) 0 0 Map.empty
     = Inr [''max_depth'' \<mapsto> PFloat (Finite (5 / 3))]"
  by (simp add: hp_depth_def phenotype_def int_of_bin_str_def is_bits_def rescale_hp_depth
      eval_value_def py_round_def Let_def)

subsection \<open>The working copy of the estimator\<close>




subsection \<open>The lifetime of the cache\<close>




end
